theory Spec2Isabelle
  imports Complex_Main
begin

chapter \<open>The program\<close>

section \<open>JavaScript values, strict equality and thrown values\<close>

text \<open>
  The values that reach \<open>expect\<close>, \<open>throw\<close> and \<open>catch\<close> in
  \<^verbatim>\<open>packages/test-runner/src/index.ts\<close>. Numbers are the IEEE doubles seen through
  \<open>===\<close>: \<open>NaN\<close>, the two infinities and the finite values (a rational each; \<open>+0\<close>
  and \<open>-0\<close> are one value, since \<open>===\<close> cannot tell them apart). A BigInt is
  its integer. An object is known by its identity only.
\<close>

datatype jsnum = NaN | NegInf | Finite rat | PosInf

datatype jsval =
    JUndefined
  | JNull
  | JBool bool
  | JNumber jsnum
  | JString string
  | JBigInt int
  | JObject nat

text \<open>\<open>a === b\<close> (ECMAScript IsStrictlyEqual): no coercion, \<open>NaN\<close> differs from itself.\<close>

fun strict_eq :: "jsval \<Rightarrow> jsval \<Rightarrow> bool" where
  "strict_eq JUndefined JUndefined = True"
| "strict_eq JNull JNull = True"
| "strict_eq (JBool a) (JBool b) = (a = b)"
| "strict_eq (JNumber a) (JNumber b) = (a \<noteq> NaN \<and> b \<noteq> NaN \<and> a = b)"
| "strict_eq (JString a) (JString b) = (a = b)"
| "strict_eq (JBigInt a) (JBigInt b) = (a = b)"
| "strict_eq (JObject a) (JObject b) = (a = b)"
| "strict_eq _ _ = False"

text \<open>JavaScript truthiness (ToBoolean), as \<open>lastError || ...\<close> and \<open>currentDescribe ? ... : ...\<close> use it.\<close>

fun truthy :: "jsval \<Rightarrow> bool" where
  "truthy JUndefined = False"
| "truthy JNull = False"
| "truthy (JBool b) = b"
| "truthy (JNumber n) = (n \<noteq> NaN \<and> n \<noteq> Finite 0)"
| "truthy (JString s) = (s \<noteq> [])"
| "truthy (JBigInt n) = (n \<noteq> 0)"
| "truthy (JObject _) = True"

text \<open>
  \<open>throw\<close> takes any value. \<open>ErrorObj m\<close> is an \<open>Error\<close> object whose \<open>message\<close> is the
  string \<open>m\<close> (what \<open>new Error(m)\<close> builds); \<open>Thrown v\<close> is any other thrown value: a
  primitive, or an object with no \<open>message\<close> property.
\<close>

datatype exn = ErrorObj string | Thrown jsval

definition quote :: string where
  "quote = [CHR 0x27]"

definition cannot_read_message :: "string \<Rightarrow> exn" where
  "cannot_read_message what =
     ErrorObj (''Cannot read properties of '' @ what @ '' (reading '' @ quote @ ''message'' @ quote @ '')'')"

text \<open>
  \<open>e.message\<close> in a \<open>catch (e: any)\<close> block: the message of an \<open>Error\<close>, \<open>undefined\<close>
  (\<open>None\<close>) for a value with no such property, and a \<open>TypeError\<close> raised by the property
  access itself when \<open>e\<close> is \<open>null\<close> or \<open>undefined\<close>.
\<close>

fun message_of :: "exn \<Rightarrow> exn + string option" where
  "message_of (ErrorObj m) = Inr (Some m)"
| "message_of (Thrown JUndefined) = Inl (cannot_read_message ''undefined'')"
| "message_of (Thrown JNull) = Inl (cannot_read_message ''null'')"
| "message_of (Thrown _) = Inr None"

fun truthy_exn :: "exn \<Rightarrow> bool" where
  "truthy_exn (ErrorObj _) = True"
| "truthy_exn (Thrown v) = truthy v"

text \<open>A template literal prints an absent value as the text \<open>undefined\<close>.\<close>

fun template :: "string option \<Rightarrow> string" where
  "template None = ''undefined''"
| "template (Some s) = s"

section \<open>The assertion engine: \<open>expect\<close>\<close>

text \<open>
  What \<open>JSON.stringify(v)\<close> does inside a template literal: it gives the text that the
  literal prints (for \<open>undefined\<close> the word \<open>undefined\<close>), or it throws a \<open>TypeError\<close>
  with the given message, as it does on a BigInt and on an object that refers to itself.
\<close>

datatype json = Text string | Fails string

text \<open>
  \<open>expect(actual).toBe(expected)\<close> and \<open>expect(actual).not.toBe(expected)\<close>
  (index.ts, lines 36-50). \<open>Inl e\<close> is \<open>throw e\<close>, \<open>Inr ()\<close> a silent return.
  \<open>JSON.stringify\<close> belongs to the host; it is the parameter \<open>stringify\<close>. The message
  is built left to right, so \<open>expected\<close> is serialised first, and a \<open>TypeError\<close> of
  \<open>JSON.stringify\<close> leaves \<open>toBe\<close> in place of the error under construction.
\<close>

definition toBe :: "(jsval \<Rightarrow> json) \<Rightarrow> jsval \<Rightarrow> jsval \<Rightarrow> exn + unit" where
  "toBe stringify actual expected =
     (if \<not> strict_eq actual expected
      then (case stringify expected of
              Fails m \<Rightarrow> Inl (ErrorObj m)
            | Text e \<Rightarrow>
                (case stringify actual of
                   Fails m \<Rightarrow> Inl (ErrorObj m)
                 | Text a \<Rightarrow> Inl (ErrorObj (''Expected '' @ e @ '', got '' @ a))))
      else Inr ())"

definition not_toBe :: "(jsval \<Rightarrow> json) \<Rightarrow> jsval \<Rightarrow> jsval \<Rightarrow> exn + unit" where
  "not_toBe stringify actual expected =
     (if strict_eq actual expected
      then (case stringify expected of
              Fails m \<Rightarrow> Inl (ErrorObj m)
            | Text e \<Rightarrow> Inl (ErrorObj (''Expected not '' @ e)))
      else Inr ())"

section \<open>Registry, group context and the registered App\<close>

text \<open>
  A test body is a closure; to keep bodies inside the registry they are programs of a small
  statement language that covers what the runner's contract talks about: registering
  (\<open>it\<close>, \<open>describe\<close>, also reachable as \<open>test\<close>, \<open>test.it\<close>, \<open>test.describe\<close>),
  throwing, asserting, \<open>registerApp\<close>, \<open>cleanup\<close>, \<open>render\<close>, and
  \<open>try { ... } catch (_) {}\<close>. Every such program terminates, and it is synchronous:
  it has returned or thrown when the call \<open>test.fn()\<close> returns, so that the \<open>await\<close>
  of either runner loop has nothing left to wait for. Bodies that are \<open>async\<close> functions
  are outside this language; in the sandbox their promise belongs to the realm of the VM and
  is not a \<open>Promise\<close> for the test \<open>result instanceof Promise\<close> of line 340.
\<close>

type_synonym app = nat

datatype stmt =
    It string "stmt list"
  | Describe string "stmt list"
  | Throw exn
  | ExpectToBe jsval jsval
  | ExpectNotToBe jsval jsval
  | RegisterApp app
  | Cleanup
  | Render
  | Try "stmt list"

record Test =
  name :: string
  fn :: "stmt list"

text \<open>
  The mutable variables a script can reach. In the host module they are \<open>tests\<close>,
  \<open>currentDescribe\<close> and \<open>registeredApp\<close> (lines 19-21). Inside the VM, \<open>it\<close> and
  \<open>describe\<close> are the sandbox's own closures (lines 275-288): the same code over
  \<open>sandbox.__testResults.tests\<close> and \<open>sandbox.__testResults.describe\<close>, while
  \<open>registerApp\<close> and \<open>cleanup\<close> are the host's functions (lines 298-299) and still write
  the host's \<open>registeredApp\<close>.
\<close>

record state =
  tests :: "Test list"
  currentDescribe :: string
  registeredApp :: "app option"

text \<open>
  What the surrounding process provides: \<open>node\<close> (\<open>process\<close> and \<open>require\<close> exist),
  \<open>dom\<close> (\<open>document\<close>, \<open>React\<close> and \<open>ReactDOM\<close> are usable globals of the host
  module), and \<open>JSON.stringify\<close>.
\<close>

record env =
  node :: bool
  dom :: bool
  stringify :: "jsval \<Rightarrow> json"

datatype scope = Host | VM

definition it :: "string \<Rightarrow> stmt list \<Rightarrow> state \<Rightarrow> state" where
  "it nm f s =
     s\<lparr>tests := tests s @
        [\<lparr>name = (if currentDescribe s \<noteq> [] then currentDescribe s @ '' > '' @ nm else nm),
          fn = f\<rparr>]\<rparr>"

text \<open>
  \<open>describe(name, fn)\<close>: set the group name, call \<open>fn\<close>, reset the name. There is no
  \<open>try\<close>/\<open>finally\<close>: when \<open>fn\<close> throws, the third statement is not reached.
\<close>

definition describe ::
  "string \<Rightarrow> (state \<Rightarrow> exn option \<times> state) \<Rightarrow> state \<Rightarrow> exn option \<times> state" where
  "describe nm f s =
     (case f (s\<lparr>currentDescribe := nm\<rparr>) of
        (None, s') \<Rightarrow> (None, s'\<lparr>currentDescribe := []\<rparr>)
      | (Some e, s') \<Rightarrow> (Some e, s'))"

lemma describe_cong [fundef_cong]:
  "nm = nm' \<Longrightarrow> s = s' \<Longrightarrow> (\<And>t. f t = g t) \<Longrightarrow> describe nm f s = describe nm' g s'"
  by (simp add: describe_def)

definition registerApp :: "app \<Rightarrow> state \<Rightarrow> state" where
  "registerApp a s = s\<lparr>registeredApp := Some a\<rparr>"

definition reference_error :: "string \<Rightarrow> exn" where
  "reference_error ident = ErrorObj (ident @ '' is not defined'')"

text \<open>\<open>render()\<close> (lines 201-214); the result is the container, here the component it shows.\<close>

definition render :: "env \<Rightarrow> state \<Rightarrow> exn + app" where
  "render ev s =
     (case registeredApp s of
        None \<Rightarrow> Inl (ErrorObj ''No App registered. Call registerApp(App) first.'')
      | Some a \<Rightarrow> if dom ev then Inr a else Inl (reference_error ''document''))"

text \<open>\<open>cleanup()\<close> (lines 232-239): the DOM calls come first, the reset last.\<close>

definition cleanup :: "env \<Rightarrow> state \<Rightarrow> exn option \<times> state" where
  "cleanup ev s =
     (if dom ev then (None, s\<lparr>registeredApp := None\<rparr>)
      else (Some (reference_error ''document''), s))"

definition lift :: "exn + 'a \<Rightarrow> state \<Rightarrow> exn option \<times> state" where
  "lift r s = (case r of Inl e \<Rightarrow> (Some e, s) | Inr _ \<Rightarrow> (None, s))"

text \<open>
  Running statements. \<open>Some e\<close> is an uncaught \<open>throw e\<close>. The VM's namespace has no
  \<open>render\<close>: of the host module's functions, lines 295-299 inject \<open>expect\<close>, \<open>act\<close>,
  \<open>waitFor\<close>, \<open>registerApp\<close> and \<open>cleanup\<close> only, so the name is unbound there.
\<close>

fun exec :: "env \<Rightarrow> scope \<Rightarrow> stmt list \<Rightarrow> state \<Rightarrow> exn option \<times> state"
and exec1 :: "env \<Rightarrow> scope \<Rightarrow> stmt \<Rightarrow> state \<Rightarrow> exn option \<times> state" where
  "exec ev sc [] s = (None, s)"
| "exec ev sc (x # xs) s =
     (case exec1 ev sc x s of
        (None, s') \<Rightarrow> exec ev sc xs s'
      | (Some e, s') \<Rightarrow> (Some e, s'))"
| "exec1 ev sc (It nm f) s = (None, it nm f s)"
| "exec1 ev sc (Describe nm b) s = describe nm (exec ev sc b) s"
| "exec1 ev sc (Throw e) s = (Some e, s)"
| "exec1 ev sc (ExpectToBe a e) s = lift (toBe (stringify ev) a e) s"
| "exec1 ev sc (ExpectNotToBe a e) s = lift (not_toBe (stringify ev) a e) s"
| "exec1 ev sc (RegisterApp a) s = (None, registerApp a s)"
| "exec1 ev sc Cleanup s = cleanup ev s"
| "exec1 ev sc Render s =
     (case sc of
        VM \<Rightarrow> (Some (reference_error ''render''), s)
      | Host \<Rightarrow> lift (render ev s) s)"
| "exec1 ev sc (Try b) s = (None, snd (exec ev sc b s))"

section \<open>The Local Runner: \<open>runTests\<close>\<close>

text \<open>
  An entry of \<open>TestResult.results\<close>: \<open>{ name, passed, error? }\<close>. The fields carry a
  prefix because \<open>name\<close> and \<open>passed\<close> are fields of \<open>Test\<close> and \<open>TestResult\<close> too.
  \<open>case_error = None\<close> is an absent (or \<open>undefined\<close>) \<open>error\<close>.
\<close>

record CaseResult =
  case_name :: string
  case_passed :: bool
  case_error :: "string option"

record TestResult =
  passed :: bool
  results :: "CaseResult list"

text \<open>
  A measure for the drain loop. \<open>for (const test of tests)\<close> walks the live array, so a
  case registered by a running body is visited in the same run; the bodies that a body can
  register are parts of its own text, which is why the walk ends.
\<close>

fun weight :: "stmt \<Rightarrow> nat"
and weights :: "stmt list \<Rightarrow> nat" where
  "weight (It nm b) = Suc (weights b)"
| "weight (Describe nm b) = weights b"
| "weight (Try b) = weights b"
| "weight (Throw e) = 0"
| "weight (ExpectToBe a e) = 0"
| "weight (ExpectNotToBe a e) = 0"
| "weight (RegisterApp a) = 0"
| "weight Cleanup = 0"
| "weight Render = 0"
| "weights [] = 0"
| "weights (x # xs) = weight x + weights xs"

definition test_weight :: "Test \<Rightarrow> nat" where
  "test_weight t = Suc (weights (fn t))"

definition pending :: "nat \<Rightarrow> state \<Rightarrow> nat" where
  "pending i s = sum_list (map test_weight (drop i (tests s)))"

lemma exec_appends:
  "\<exists>new. tests (snd (exec ev sc b s)) = tests s @ new \<and> sum_list (map test_weight new) \<le> weights b"
  "\<exists>new. tests (snd (exec1 ev sc x s)) = tests s @ new \<and> sum_list (map test_weight new) \<le> weight x"
proof (induction ev sc b s and ev sc x s rule: exec_exec1.induct)
  case (1 ev sc s)
  show ?case by simp
next
  case (2 ev sc x xs s)
  obtain r s1 where e1: "exec1 ev sc x s = (r, s1)" by (cases "exec1 ev sc x s")
  from 2(1) e1 obtain n1 where n1: "tests s1 = tests s @ n1" "sum_list (map test_weight n1) \<le> weight x"
    by auto
  show ?case
  proof (cases r)
    case None
    from 2(2)[OF e1[symmetric, unfolded None]] obtain n2 where
      n2: "tests (snd (exec ev sc xs s1)) = tests s1 @ n2" "sum_list (map test_weight n2) \<le> weights xs"
      by auto
    have "tests (snd (exec ev sc (x # xs) s)) = tests s @ (n1 @ n2)"
      using e1 None n1 n2 by simp
    moreover have "sum_list (map test_weight (n1 @ n2)) \<le> weights (x # xs)"
      using n1 n2 by simp
    ultimately show ?thesis by blast
  next
    case (Some e)
    have "tests (snd (exec ev sc (x # xs) s)) = tests s @ n1"
      using e1 Some n1 by simp
    moreover have "sum_list (map test_weight n1) \<le> weights (x # xs)"
      using n1 by simp
    ultimately show ?thesis by blast
  qed
next
  case (3 ev sc nm f s)
  have "tests (snd (exec1 ev sc (It nm f) s)) = tests s @
      [\<lparr>name = (if currentDescribe s \<noteq> [] then currentDescribe s @ '' > '' @ nm else nm), fn = f\<rparr>]"
    by (simp add: it_def)
  moreover have "sum_list (map test_weight
      [\<lparr>name = (if currentDescribe s \<noteq> [] then currentDescribe s @ '' > '' @ nm else nm), fn = f\<rparr>])
      \<le> weight (It nm f)"
    by (simp add: test_weight_def)
  ultimately show ?case by blast
next
  case (4 ev sc nm b s)
  from 4[of "s\<lparr>currentDescribe := nm\<rparr>"] obtain new where
    new: "tests (snd (exec ev sc b (s\<lparr>currentDescribe := nm\<rparr>))) = tests s @ new"
      "sum_list (map test_weight new) \<le> weights b"
    by auto
  obtain r s1 where ex: "exec ev sc b (s\<lparr>currentDescribe := nm\<rparr>) = (r, s1)"
    by (cases "exec ev sc b (s\<lparr>currentDescribe := nm\<rparr>)")
  have "tests (snd (exec1 ev sc (Describe nm b) s)) = tests s @ new"
    using new(1) ex by (cases r) (simp_all add: describe_def)
  then show ?case using new(2) by auto
next
  case (9 ev sc s)
  then show ?case by (simp add: cleanup_def)
next
  case (10 ev sc s)
  then show ?case by (cases sc) (simp_all add: lift_def split: sum.splits)
qed (simp_all add: lift_def registerApp_def split: sum.splits)

text \<open>
  The loop of \<open>runTests\<close> (lines 93-100), and of the drain phase of \<open>runTestsInVM\<close>
  (lines 336-347): index \<open>i\<close> walks the live array. \<open>await test.fn()\<close> runs the body to
  its end. In the \<open>catch\<close> block \<open>e.message\<close> is read from whatever was thrown; when
  that read itself throws, the error leaves the loop and the \<open>async\<close> function rejects
  (\<open>Inl\<close>).
\<close>

function run_loop ::
  "env \<Rightarrow> scope \<Rightarrow> nat \<Rightarrow> CaseResult list \<Rightarrow> state \<Rightarrow> (exn + CaseResult list) \<times> state" where
  "run_loop ev sc i rs s =
     (if i < length (tests s) then
        (case exec ev sc (fn (tests s ! i)) s of
           (None, s') \<Rightarrow>
             run_loop ev sc (Suc i)
               (rs @ [\<lparr>case_name = name (tests s ! i), case_passed = True, case_error = None\<rparr>]) s'
         | (Some e, s') \<Rightarrow>
             (case message_of e of
                Inl te \<Rightarrow> (Inl te, s')
              | Inr m \<Rightarrow>
                  run_loop ev sc (Suc i)
                    (rs @ [\<lparr>case_name = name (tests s ! i), case_passed = False, case_error = m\<rparr>]) s'))
      else (Inr rs, s))"
  by pat_completeness auto

lemma pending_decreases:
  assumes "i < length (tests s)" and "exec ev sc (fn (tests s ! i)) s = (r, s')"
  shows "pending (Suc i) s' < pending i s"
proof -
  from exec_appends(1)[of ev sc "fn (tests s ! i)" s] assms(2) obtain new where
    new: "tests s' = tests s @ new" "sum_list (map test_weight new) \<le> weights (fn (tests s ! i))"
    by auto
  have "drop i (tests s) = tests s ! i # drop (Suc i) (tests s)"
    using assms(1) by (simp add: Cons_nth_drop_Suc)
  then have "pending i s = test_weight (tests s ! i) + pending (Suc i) s"
    by (simp add: pending_def)
  moreover have "pending (Suc i) s' = pending (Suc i) s + sum_list (map test_weight new)"
    using new(1) assms(1) by (simp add: pending_def)
  ultimately show ?thesis using new(2) by (simp add: test_weight_def)
qed

termination run_loop
proof (relation "measure (\<lambda>(ev, sc, i, rs, s). pending i s)")
  show "wf (measure (\<lambda>(ev, sc, i, rs, s). pending i s))" by simp
next
  fix ev sc i rs s x1 x2 s'
  assume "i < length (tests s)" "(x1, s') = exec ev sc (fn (tests s ! i)) s"
  then show "((ev, sc, Suc i, rs @ [\<lparr>case_name = name (tests s ! i), case_passed = True, case_error = None\<rparr>], s'),
              (ev, sc, i, rs, s)) \<in> measure (\<lambda>(ev, sc, i, rs, s). pending i s)"
    using pending_decreases[of i s ev sc x1 s'] by simp
next
  fix ev sc i rs s x1 s' e m
  assume "i < length (tests s)" "(x1, s') = exec ev sc (fn (tests s ! i)) s"
  then show "((ev, sc, Suc i, rs @ [\<lparr>case_name = name (tests s ! i), case_passed = False, case_error = m\<rparr>], s'),
              (ev, sc, i, rs, s)) \<in> measure (\<lambda>(ev, sc, i, rs, s). pending i s)"
    using pending_decreases[of i s ev sc x1 s'] by simp
qed

declare run_loop.simps [simp del]

text \<open>
  \<open>runTests()\<close> (lines 90-108). \<open>tests.length = 0\<close> stands after the loop, so it is
  reached only when the loop ends normally.
\<close>

definition runTests :: "env \<Rightarrow> state \<Rightarrow> (exn + TestResult) \<times> state" where
  "runTests ev s =
     (case run_loop ev Host 0 [] s of
        (Inl e, s') \<Rightarrow> (Inl e, s')
      | (Inr rs, s') \<Rightarrow>
          (Inr \<lparr>passed = list_all case_passed rs, results = rs\<rparr>, s'\<lparr>tests := []\<rparr>))"

section \<open>The Sandbox Runner: \<open>runTestsInVM\<close>\<close>

text \<open>
  The text handed to \<open>vm.runInContext\<close>, by what running it does: text that does not
  parse (the VM throws a \<open>SyntaxError\<close> with the given message and runs nothing), a script
  that runs to its end, or a script that runs the given statements and then does not finish
  within the 30000 ms limit, at which point the VM throws its timeout error.
\<close>

datatype source = Unparsable string | Script "stmt list" | Overrun "stmt list"

definition timeout_error :: exn where
  "timeout_error = ErrorObj ''Script execution timed out after 30000ms''"

fun vm_runInContext :: "env \<Rightarrow> source \<Rightarrow> state \<Rightarrow> exn option \<times> state" where
  "vm_runInContext ev (Unparsable m) s = (Some (ErrorObj m), s)"
| "vm_runInContext ev (Script p) s = exec ev VM p s"
| "vm_runInContext ev (Overrun p) s =
     (case exec ev VM p s of
        (None, s') \<Rightarrow> (Some timeout_error, s')
      | (Some e, s') \<Rightarrow> (Some e, s'))"

text \<open>
  The state a sandboxed script works on: the fresh \<open>__testResults\<close> of this call
  (\<open>tests: []\<close>, \<open>describe: ''\<close>; its \<open>passed\<close> field is never read) and the host's
  \<open>registeredApp\<close>, which the injected \<open>registerApp\<close> and \<open>cleanup\<close> write.
\<close>

definition sandbox :: "state \<Rightarrow> state" where
  "sandbox h = \<lparr>tests = [], currentDescribe = [], registeredApp = registeredApp h\<rparr>"

text \<open>
  \<open>runTestsInVM(bundledCode)\<close> (lines 253-353), called in host state \<open>h\<close>. The host's
  \<open>tests\<close> and \<open>currentDescribe\<close> are not reachable from the sandbox; of the sandbox
  state only \<open>registeredApp\<close> outlives the call. The missing React modules only print a
  warning (lines 303-309).
\<close>

definition runTestsInVM :: "env \<Rightarrow> source \<Rightarrow> state \<Rightarrow> (exn + TestResult) \<times> state" where
  "runTestsInVM ev bundledCode h =
     (if \<not> node ev
      then (Inl (ErrorObj ''runTestsInVM can only be used in Node.js environment''), h)
      else
        (case vm_runInContext ev bundledCode (sandbox h) of
           (Some error, sb) \<Rightarrow>
             (case message_of error of
                Inl te \<Rightarrow> (Inl te, h\<lparr>registeredApp := registeredApp sb\<rparr>)
              | Inr m \<Rightarrow>
                  (Inr \<lparr>passed = False,
                        results = [\<lparr>case_name = ''Code execution'', case_passed = False,
                                    case_error = Some (''Failed to execute code: '' @ template m)\<rparr>]\<rparr>,
                   h\<lparr>registeredApp := registeredApp sb\<rparr>))
         | (None, sb) \<Rightarrow>
             (case run_loop ev VM 0 [] sb of
                (Inl te, sb') \<Rightarrow> (Inl te, h\<lparr>registeredApp := registeredApp sb'\<rparr>)
              | (Inr rs, sb') \<Rightarrow>
                  (Inr \<lparr>passed = list_all case_passed rs, results = rs\<rparr>,
                   h\<lparr>registeredApp := registeredApp sb'\<rparr>))))"

section \<open>The polling primitive: \<open>waitFor\<close>\<close>

text \<open>
  \<open>options: { timeout?: number; interval?: number }\<close>: each field is absent or a number,
  \<open>NaN\<close> and the infinities included.
\<close>

record wait_options =
  timeout :: "jsnum option"
  interval :: "jsnum option"

text \<open>The defaults of the destructuring \<open>{ timeout = 5000, interval = 50 } = options\<close>.\<close>

definition timeout_of :: "wait_options \<Rightarrow> jsnum" where
  "timeout_of options = (case timeout options of None \<Rightarrow> Finite 5000 | Some t \<Rightarrow> t)"

definition interval_of :: "wait_options \<Rightarrow> jsnum" where
  "interval_of options = (case interval options of None \<Rightarrow> Finite 50 | Some i \<Rightarrow> i)"

text \<open>
  \<open>Date.now() - startTime < timeout\<close>: the left side is a whole number of milliseconds,
  the comparison is the one of IEEE numbers, false whenever \<open>timeout\<close> is \<open>NaN\<close>.
\<close>

fun below :: "int \<Rightarrow> jsnum \<Rightarrow> bool" where
  "below x NaN = False"
| "below x NegInf = False"
| "below x (Finite q) = (of_int x < q)"
| "below x PosInf = True"

text \<open>
  What \<open>waitFor\<close> takes from its surroundings.

  The clock: \<open>clock k\<close> is the value of the \<open>k\<close>-th evaluation of \<open>Date.now()\<close> by the
  call, \<open>clock 0\<close> the one of line 157 and \<open>clock (Suc i)\<close> the one of the loop test
  (line 160) before the \<open>i\<close>-th invocation of the callback. Nothing is assumed of the
  readings, not even that they grow.

  The callback: \<open>cb i\<close> is how its \<open>i\<close>-th invocation ends, as \<open>waitFor\<close> sees it. It
  returns (it returns a value that is not a \<open>Promise\<close> of the host, which is not awaited,
  or a promise that is fulfilled), it raises a value (it throws, or its promise is rejected),
  or it never ends (it does not return, or its promise stays pending).
\<close>

type_synonym clock = "nat \<Rightarrow> int"

datatype settled = Returns | Raises exn | Hangs

type_synonym callback = "nat \<Rightarrow> settled"

text \<open>
  What a call of \<open>waitFor\<close> did: how its promise settled, the invocations of the callback
  it made, in order, with how each ended, and the delays of the timers it set (line 169), in
  order. The two lists are bookkeeping of the model. Awaiting the timer of line 169 changes no
  variable of \<open>waitFor\<close>: time passes, which the next reading of the clock shows.
\<close>

record wait_result =
  outcome :: "exn + unit"
  calls :: "settled list"
  timers :: "jsnum list"

text \<open>\<open>lastError || fallback\<close>, with the never-assigned \<open>lastError\<close> as \<open>None\<close>.\<close>

fun or_else :: "exn option \<Rightarrow> exn \<Rightarrow> exn" where
  "or_else None d = d"
| "or_else (Some e) d = (if truthy_exn e then e else d)"

text \<open>
  \<open>new Error(`waitFor timeout after ${timeout}ms`)\<close>. The template literal prints the
  number as \<open>Number.prototype.toString\<close> does; that function is the parameter \<open>num\<close>.
\<close>

definition waitFor_timeout :: "(jsnum \<Rightarrow> string) \<Rightarrow> jsnum \<Rightarrow> exn" where
  "waitFor_timeout num tmo = ErrorObj (''waitFor timeout after '' @ num tmo @ ''ms'')"

text \<open>
  The loop of lines 160-171 and the \<open>throw\<close> of line 174, with \<open>i\<close> invocations made so
  far. The promise of \<open>waitFor\<close> never settles (\<open>None\<close>) when an invocation of the
  callback never ends, and when the loop goes on for ever.
\<close>

partial_function (option) waitFor_loop ::
  "(jsnum \<Rightarrow> string) \<Rightarrow> clock \<Rightarrow> callback \<Rightarrow> jsnum \<Rightarrow> jsnum \<Rightarrow> int \<Rightarrow> nat \<Rightarrow>
   settled list \<Rightarrow> jsnum list \<Rightarrow> exn option \<Rightarrow> wait_result option" where
  "waitFor_loop num clock cb tmo ivl startTime i hist tm lastError =
     (if below (clock (Suc i) - startTime) tmo then
        (case cb i of
           Returns \<Rightarrow> Some \<lparr>outcome = Inr (), calls = hist @ [Returns], timers = tm\<rparr>
         | Raises e \<Rightarrow>
             waitFor_loop num clock cb tmo ivl startTime (Suc i)
               (hist @ [Raises e]) (tm @ [ivl]) (Some e)
         | Hangs \<Rightarrow> None)
      else Some \<lparr>outcome = Inl (or_else lastError (waitFor_timeout num tmo)),
                 calls = hist, timers = tm\<rparr>)"

text \<open>\<open>waitFor(callback, options)\<close> (lines 152-175).\<close>

definition waitFor ::
  "(jsnum \<Rightarrow> string) \<Rightarrow> clock \<Rightarrow> callback \<Rightarrow> wait_options \<Rightarrow> wait_result option" where
  "waitFor num clock cb options =
     waitFor_loop num clock cb (timeout_of options) (interval_of options) (clock 0) 0 [] [] None"

section \<open>The grading glue: \<^verbatim>\<open>packages/test-utils/src/index.ts\<close>\<close>

text \<open>
  The file system as a tree; a directory lists its entries in \<open>readdirSync\<close> order. A
  path is its list of segments, \<open>join(a, b)\<close> is \<open>a @ [b]\<close>.
\<close>

datatype node = File string | Dir "(string \<times> node) list"

type_synonym path = "string list"

fun lookup :: "node \<Rightarrow> path \<Rightarrow> node option" where
  "lookup n [] = Some n"
| "lookup (File c) (x # xs) = None"
| "lookup (Dir es) (x # xs) = (case map_of es x of None \<Rightarrow> None | Some c \<Rightarrow> lookup c xs)"

definition existsSync :: "node \<Rightarrow> path \<Rightarrow> bool" where
  "existsSync fs p = (lookup fs p \<noteq> None)"

definition readFileSync :: "node \<Rightarrow> path \<Rightarrow> exn + string" where
  "readFileSync fs p =
     (case lookup fs p of
        None \<Rightarrow> Inl (ErrorObj ''ENOENT: no such file or directory'')
      | Some (Dir es) \<Rightarrow> Inl (ErrorObj ''EISDIR: illegal operation on a directory'')
      | Some (File c) \<Rightarrow> Inr c)"

text \<open>\<open>Array.prototype.join\<close>.\<close>

fun join_with :: "string \<Rightarrow> string list \<Rightarrow> string" where
  "join_with sep [] = []"
| "join_with sep [x] = x"
| "join_with sep (x # y # ys) = x @ sep @ join_with sep (y # ys)"

text \<open>\<open>relative(baseDir, fullPath)\<close> for a path below \<open>baseDir\<close>: its segments from there.\<close>

definition relative :: "path \<Rightarrow> string" where
  "relative segs = join_with ''/'' segs"

text \<open>
  \<open>listFilesRecursive(dir)\<close> (lines 13-34): an absent \<open>dir\<close> lists nothing,
  \<open>readdirSync\<close> throws on a plain file, and the walk follows the tree (\<open>rel\<close> is the
  path from \<open>baseDir\<close>).
\<close>

fun walk :: "path \<Rightarrow> node \<Rightarrow> path list"
and walk_entries :: "path \<Rightarrow> (string \<times> node) list \<Rightarrow> path list" where
  "walk rel (File c) = [rel]"
| "walk rel (Dir es) = walk_entries rel es"
| "walk_entries rel [] = []"
| "walk_entries rel ((entry, n) # es) = walk (rel @ [entry]) n @ walk_entries rel es"

definition listFilesRecursive :: "node \<Rightarrow> path \<Rightarrow> exn + path list" where
  "listFilesRecursive fs dir =
     (case lookup fs dir of
        None \<Rightarrow> Inr []
      | Some (File c) \<Rightarrow> Inl (ErrorObj ''ENOTDIR: not a directory'')
      | Some (Dir es) \<Rightarrow> Inr (walk_entries [] es))"

text \<open>
  \<open>loadCodeFiles\<close> (lines 119-139); the record of file contents is the list of its
  entries in insertion order, which is the order of \<open>Object.entries\<close> for keys that are
  not canonical array indices, as the relative paths of files with an extension are. (A file
  named by a number alone would be listed first by JavaScript; the model keeps it in place.)
\<close>

fun read_all :: "node \<Rightarrow> path \<Rightarrow> path list \<Rightarrow> exn + (string \<times> string) list" where
  "read_all fs folderPath [] = Inr []"
| "read_all fs folderPath (filepath # rest) =
     (case readFileSync fs (folderPath @ filepath) of
        Inl e \<Rightarrow> Inl e
      | Inr content \<Rightarrow>
          (case read_all fs folderPath rest of
             Inl e \<Rightarrow> Inl e
           | Inr files \<Rightarrow> Inr ((relative filepath, content) # files)))"

definition loadCodeFiles :: "node \<Rightarrow> path \<Rightarrow> string \<Rightarrow> exn + (string \<times> string) list" where
  "loadCodeFiles fs problemPath folder =
     (if \<not> existsSync fs (problemPath @ [folder]) then Inr []
      else
        (case listFilesRecursive fs (problemPath @ [folder]) of
           Inl e \<Rightarrow> Inl e
         | Inr filePaths \<Rightarrow> read_all fs (problemPath @ [folder]) filePaths))"

text \<open>\<open>bundleCodeWithTests\<close> (lines 91-114).\<close>

definition newline :: string where
  "newline = [CHR 0x0A]"

definition bundleCodeWithTests :: "(string \<times> string) list \<Rightarrow> string \<Rightarrow> string" where
  "bundleCodeWithTests codeFiles testCode =
     join_with newline
       (concat (map (\<lambda>(filepath, content). [''// File: '' @ filepath, content, '''']) codeFiles)
        @ [''// Auto-register App'', ''registerApp(App);'', '''', ''// Test file'', testCode])"

text \<open>
  \<open>runTestsWithCode\<close> (lines 144-186). What a bundled text does when run is given by
  \<open>parse\<close>; a rejection of \<open>runTestsInVM\<close> becomes the entry \<open>Run tests in VM\<close>.
\<close>

definition failed_report :: "string \<Rightarrow> string option \<Rightarrow> TestResult" where
  "failed_report nm err =
     \<lparr>passed = False,
      results = [\<lparr>case_name = nm, case_passed = False, case_error = err\<rparr>]\<rparr>"

definition runTestsWithCode ::
  "node \<Rightarrow> (string \<Rightarrow> source) \<Rightarrow> env \<Rightarrow> path \<Rightarrow> string \<Rightarrow> state \<Rightarrow> (exn + TestResult) \<times> state" where
  "runTestsWithCode fs parse ev problemPath folder h =
     (case loadCodeFiles fs problemPath folder of
        Inl e \<Rightarrow> (Inl e, h)
      | Inr codeFiles \<Rightarrow>
          if \<not> existsSync fs (problemPath @ [''test.ts''])
          then (Inr (failed_report ''Load test file'' (Some ''test.ts not found'')), h)
          else
            (case readFileSync fs (problemPath @ [''test.ts'']) of
               Inl e \<Rightarrow> (Inl e, h)
             | Inr testCode \<Rightarrow>
                 (case runTestsInVM ev (parse (bundleCodeWithTests codeFiles testCode)) h of
                    (Inr report, h') \<Rightarrow> (Inr report, h')
                  | (Inl error, h') \<Rightarrow>
                      (case message_of error of
                         Inl te \<Rightarrow> (Inl te, h')
                       | Inr m \<Rightarrow> (Inr (failed_report ''Run tests in VM'' m), h')))))"

text \<open>\<open>validateProblemTests\<close> (lines 191-232) and its result type.\<close>

record Validation =
  valid :: bool
  solutionResult :: "TestResult option"
  srcResult :: "TestResult option"
  errors :: "string list"

definition failed_lines :: "TestResult \<Rightarrow> string list" where
  "failed_lines r =
     map (\<lambda>c. ''  - '' @ case_name c @ '': '' @ template (case_error c))
       (filter (\<lambda>c. \<not> case_passed c) (results r))"

definition validateProblemTests ::
  "node \<Rightarrow> (string \<Rightarrow> source) \<Rightarrow> env \<Rightarrow> path \<Rightarrow> state \<Rightarrow> (exn + Validation) \<times> state" where
  "validateProblemTests fs parse ev problemPath h =
     (if \<not> existsSync fs (problemPath @ [''solution''])
      then (Inr \<lparr>valid = True, solutionResult = None, srcResult = None,
                 errors = [''No solution/ folder - skipping test validation'']\<rparr>, h)
      else
        (case runTestsWithCode fs parse ev problemPath ''solution'' h of
           (Inl e, h1) \<Rightarrow> (Inl e, h1)
         | (Inr sol, h1) \<Rightarrow>
             (let errors1 =
                    (if \<not> passed sol
                     then [''solution/ code failed tests (should pass all tests)'', ''Failed tests:'']
                          @ failed_lines sol
                     else [])
              in case runTestsWithCode fs parse ev problemPath ''src'' h1 of
                   (Inl e, h2) \<Rightarrow> (Inl e, h2)
                 | (Inr src, h2) \<Rightarrow>
                     (let errors2 =
                            errors1 @
                            (if passed src
                             then [''src/ code passed all tests (should have bugs that fail tests)'']
                             else [])
                      in (Inr \<lparr>valid = (length errors2 = 0), solutionResult = Some sol,
                                srcResult = Some src, errors = errors2\<rparr>, h2)))))"

chapter \<open>Properties\<close>

section \<open>States and environments used in instances\<close>

definition init :: state where
  "init = \<lparr>tests = [], currentDescribe = [], registeredApp = None\<rparr>"

text \<open>
  A \<open>JSON.stringify\<close> for the instances: it rejects a BigInt as V8 does and prints
  every other value as \<open>v\<close>.
\<close>

definition sample_stringify :: "jsval \<Rightarrow> json" where
  "sample_stringify v =
     (case v of
        JBigInt n \<Rightarrow> Fails ''Do not know how to serialize a BigInt''
      | _ \<Rightarrow> Text ''v'')"

definition plain_env :: env where
  "plain_env = \<lparr>node = True, dom = True, stringify = sample_stringify\<rparr>"

section \<open>Facts about running bodies and draining a registry\<close>

text \<open>
  \<open>it_names\<close>: the names of all \<open>it(...)\<close> calls in a piece of script, nested ones
  included; a script with none registers no case. \<open>readable\<close>: no \<open>throw\<close> of the
  script that can escape it (one outside every \<open>try\<close> and outside the bodies it only
  registers) throws \<open>null\<close> or \<open>undefined\<close>, the two values whose \<open>message\<close> cannot
  be read.
\<close>

fun it_names :: "stmt \<Rightarrow> string list"
and it_names_list :: "stmt list \<Rightarrow> string list" where
  "it_names (It nm b) = nm # it_names_list b"
| "it_names (Describe nm b) = it_names_list b"
| "it_names (Try b) = it_names_list b"
| "it_names (Throw e) = []"
| "it_names (ExpectToBe a e) = []"
| "it_names (ExpectNotToBe a e) = []"
| "it_names (RegisterApp a) = []"
| "it_names Cleanup = []"
| "it_names Render = []"
| "it_names_list [] = []"
| "it_names_list (x # xs) = it_names x @ it_names_list xs"

definition readable_exn :: "exn \<Rightarrow> bool" where
  "readable_exn e = (case message_of e of Inl _ \<Rightarrow> False | Inr _ \<Rightarrow> True)"

fun readable :: "stmt \<Rightarrow> bool"
and readable_list :: "stmt list \<Rightarrow> bool" where
  "readable (Throw e) = readable_exn e"
| "readable (Describe nm b) = readable_list b"
| "readable (It nm b) = True"
| "readable (Try b) = True"
| "readable (ExpectToBe a e) = True"
| "readable (ExpectNotToBe a e) = True"
| "readable (RegisterApp a) = True"
| "readable Cleanup = True"
| "readable Render = True"
| "readable_list [] = True"
| "readable_list (x # xs) = (readable x \<and> readable_list xs)"

lemma exec_registers_nothing:
  "it_names_list b = [] \<Longrightarrow> tests (snd (exec ev sc b s)) = tests s"
  "it_names x = [] \<Longrightarrow> tests (snd (exec1 ev sc x s)) = tests s"
proof (induction ev sc b s and ev sc x s rule: exec_exec1.induct)
  case (2 ev sc x xs s)
  obtain r s1 where e1: "exec1 ev sc x s = (r, s1)" by (cases "exec1 ev sc x s")
  from 2(1) 2(3) e1 have t1: "tests s1 = tests s" by simp
  show ?case
  proof (cases r)
    case None
    from 2(2)[OF e1[symmetric, unfolded None]] 2(3) have "tests (snd (exec ev sc xs s1)) = tests s1" by simp
    then show ?thesis using e1 None t1 by simp
  next
    case (Some e)
    then show ?thesis using e1 t1 by simp
  qed
next
  case (4 ev sc nm b s)
  obtain r s1 where ex: "exec ev sc b (s\<lparr>currentDescribe := nm\<rparr>) = (r, s1)"
    by (cases "exec ev sc b (s\<lparr>currentDescribe := nm\<rparr>)")
  from 4(1)[of "s\<lparr>currentDescribe := nm\<rparr>"] 4(2) ex have "tests s1 = tests s" by simp
  then show ?case using ex by (cases r) (simp_all add: describe_def)
next
  case (9 ev sc s)
  then show ?case by (simp add: cleanup_def)
next
  case (10 ev sc s)
  then show ?case by (cases sc) (simp_all add: lift_def split: sum.splits)
qed (simp_all add: lift_def registerApp_def split: sum.splits)

lemma readable_exnI: "readable_exn (ErrorObj m)"
  by (simp add: readable_exn_def)

lemma readable_reference_error: "readable_exn (reference_error x)"
  by (simp add: reference_error_def readable_exn_def)

lemma lift_readable:
  "lift r s = (Some e, s') \<Longrightarrow> (\<And>x. r = Inl x \<Longrightarrow> readable_exn x) \<Longrightarrow> readable_exn e"
  by (cases r) (simp_all add: lift_def)

lemma exec_readable:
  "readable_list b \<Longrightarrow> fst (exec ev sc b s) = Some e \<Longrightarrow> readable_exn e"
  "readable x \<Longrightarrow> fst (exec1 ev sc x s) = Some e \<Longrightarrow> readable_exn e"
proof (induction ev sc b s and ev sc x s arbitrary: e and e rule: exec_exec1.induct)
  case (2 ev sc x xs s)
  obtain r s1 where e1: "exec1 ev sc x s = (r, s1)" by (cases "exec1 ev sc x s")
  show ?case
  proof (cases r)
    case None
    from 2(2)[OF e1[symmetric, unfolded None]] 2(3,4) e1 None show ?thesis by simp
  next
    case (Some e')
    with 2(1) 2(3,4) e1 show ?thesis by simp
  qed
next
  case (4 ev sc nm b s)
  obtain r s1 where ex: "exec ev sc b (s\<lparr>currentDescribe := nm\<rparr>) = (r, s1)"
    by (cases "exec ev sc b (s\<lparr>currentDescribe := nm\<rparr>)")
  with 4(3) have "r = Some e" by (cases r) (simp_all add: describe_def)
  with 4(1)[of "s\<lparr>currentDescribe := nm\<rparr>" e] 4(2) ex show ?case by simp
next
  case (6 ev sc a e s)
  then show ?case by (auto simp: lift_def toBe_def readable_exnI split: if_splits json.splits)
next
  case (7 ev sc a e s)
  then show ?case by (auto simp: lift_def not_toBe_def readable_exnI split: if_splits json.splits)
next
  case (9 ev sc s)
  then show ?case by (auto simp: cleanup_def readable_reference_error split: if_splits)
next
  case (10 ev sc s)
  then show ?case
    by (cases sc)
      (auto simp: lift_def render_def readable_reference_error readable_exnI split: if_splits option.splits)
qed simp_all

lemma run_loop_done:
  "\<not> i < length (tests s) \<Longrightarrow> run_loop ev sc i rs s = (Inr rs, s)"
  by (subst run_loop.simps) simp

lemma run_loop_pass:
  "i < length (tests s) \<Longrightarrow> exec ev sc (fn (tests s ! i)) s = (None, s') \<Longrightarrow>
   run_loop ev sc i rs s =
     run_loop ev sc (Suc i)
       (rs @ [\<lparr>case_name = name (tests s ! i), case_passed = True, case_error = None\<rparr>]) s'"
  by (subst run_loop.simps) simp

lemma run_loop_fail:
  "i < length (tests s) \<Longrightarrow> exec ev sc (fn (tests s ! i)) s = (Some e, s') \<Longrightarrow>
   message_of e = Inr m \<Longrightarrow>
   run_loop ev sc i rs s =
     run_loop ev sc (Suc i)
       (rs @ [\<lparr>case_name = name (tests s ! i), case_passed = False, case_error = m\<rparr>]) s'"
  by (subst run_loop.simps) simp

lemma run_loop_reject:
  "i < length (tests s) \<Longrightarrow> exec ev sc (fn (tests s ! i)) s = (Some e, s') \<Longrightarrow>
   message_of e = Inl te \<Longrightarrow> run_loop ev sc i rs s = (Inl te, s')"
  by (subst run_loop.simps) simp

lemma readable_exn_message: "readable_exn e \<Longrightarrow> \<exists>m. message_of e = Inr m"
  by (cases "message_of e") (simp_all add: readable_exn_def)

lemma run_loop_fixed:
  assumes "\<forall>t\<in>set (tests s). it_names_list (fn t) = [] \<and> readable_list (fn t)"
  shows "\<exists>rs' s'. run_loop ev sc i rs s = (Inr rs', s') \<and> tests s' = tests s \<and>
           map case_name rs' = map case_name rs @ map name (drop i (tests s))"
  using assms
proof (induction ev sc i rs s rule: run_loop.induct)
  case (1 ev sc i rs s)
  show ?case
  proof (cases "i < length (tests s)")
    case False
    then show ?thesis by (simp add: run_loop_done)
  next
    case True
    let ?t = "tests s ! i"
    obtain r s1 where ex: "exec ev sc (fn ?t) s = (r, s1)" by (cases "exec ev sc (fn ?t) s")
    from True have mem: "?t \<in> set (tests s)" by simp
    from mem 1(3) have noreg: "it_names_list (fn ?t) = []" by blast
    from mem 1(3) have rd: "readable_list (fn ?t)" by blast
    have "tests (snd (exec ev sc (fn ?t) s)) = tests s"
      using noreg by (rule exec_registers_nothing(1))
    with ex have same: "tests s1 = tests s" by simp
    have dr: "drop i (tests s) = ?t # drop (Suc i) (tests s)"
      using True by (simp add: Cons_nth_drop_Suc)
    show ?thesis
    proof (cases r)
      case None
      from 1(1)[OF True ex[symmetric] None] 1(3) same obtain rs' s' where
        ih: "run_loop ev sc (Suc i)
               (rs @ [\<lparr>case_name = name ?t, case_passed = True, case_error = None\<rparr>]) s1 = (Inr rs', s')"
            "tests s' = tests s1"
            "map case_name rs' =
               map case_name (rs @ [\<lparr>case_name = name ?t, case_passed = True, case_error = None\<rparr>])
               @ map name (drop (Suc i) (tests s1))"
        by auto
      have "run_loop ev sc i rs s = (Inr rs', s')"
        using run_loop_pass[OF True ex[unfolded None]] ih(1) by simp
      then show ?thesis using ih(2,3) same dr by simp
    next
      case (Some e)
      have "fst (exec ev sc (fn ?t) s) = Some e" using ex Some by simp
      with rd have "readable_exn e" by (rule exec_readable(1))
      then obtain m where m: "message_of e = Inr m" using readable_exn_message by blast
      from 1(2)[OF True ex[symmetric] Some m] 1(3) same obtain rs' s' where
        ih: "run_loop ev sc (Suc i)
               (rs @ [\<lparr>case_name = name ?t, case_passed = False, case_error = m\<rparr>]) s1 = (Inr rs', s')"
            "tests s' = tests s1"
            "map case_name rs' =
               map case_name (rs @ [\<lparr>case_name = name ?t, case_passed = False, case_error = m\<rparr>])
               @ map name (drop (Suc i) (tests s1))"
        by auto
      have "run_loop ev sc i rs s = (Inr rs', s')"
        using run_loop_fail[OF True ex[unfolded Some] m] ih(1) by simp
      then show ?thesis using ih(2,3) same dr by simp
    qed
  qed
qed

definition two_cases :: state where
  "two_cases = \<lparr>tests = [\<lparr>name = ''a'', fn = []\<rparr>, \<lparr>name = ''b'', fn = [Throw (ErrorObj ''x'')]\<rparr>],
                 currentDescribe = [], registeredApp = None\<rparr>"

lemma runTests_two_cases:
  "runTests plain_env two_cases =
     (Inr \<lparr>passed = False,
           results = [\<lparr>case_name = ''a'', case_passed = True, case_error = None\<rparr>,
                      \<lparr>case_name = ''b'', case_passed = False, case_error = Some ''x''\<rparr>]\<rparr>,
      init)"
  by (simp add: runTests_def two_cases_def init_def run_loop.simps)

definition null_case :: state where
  "null_case = \<lparr>tests = [\<lparr>name = ''t'', fn = [Throw (Thrown JNull)]\<rparr>],
                 currentDescribe = [], registeredApp = None\<rparr>"

definition stuck_cases :: state where
  "stuck_cases = \<lparr>tests = [\<lparr>name = ''a'', fn = []\<rparr>, \<lparr>name = ''t'', fn = [Throw (Thrown JUndefined)]\<rparr>],
                   currentDescribe = [], registeredApp = None\<rparr>"

definition string_case :: state where
  "string_case = \<lparr>tests = [\<lparr>name = ''t'', fn = [Throw (Thrown (JString ''boom''))]\<rparr>],
                   currentDescribe = [], registeredApp = None\<rparr>"

section \<open>An invariant of the drain loop\<close>

text \<open>
  A property \<open>I\<close> of the state that every run of a registered body keeps (bodies being
  those that satisfy \<open>P\<close>) holds when the loop ends, however it ends; and every entry of the
  results carries the name of a case that was in the registry.
\<close>

lemma run_loop_invariant:
  assumes "\<forall>b s. P b \<longrightarrow> I s \<longrightarrow> I (snd (exec ev sc b s))"
      and "\<forall>s t. I s \<longrightarrow> t \<in> set (tests s) \<longrightarrow> P (fn t) \<and> N (name t)"
      and "I s" and "\<forall>r\<in>set rs. N (case_name r)"
  shows "I (snd (run_loop ev sc i rs s)) \<and>
         (\<forall>rs'. fst (run_loop ev sc i rs s) = Inr rs' \<longrightarrow> (\<forall>r\<in>set rs'. N (case_name r)))"
  using assms
proof (induction ev sc i rs s rule: run_loop.induct)
  case (1 ev sc i rs s)
  note step = 1(3) and body = 1(4) and inv = 1(5) and nms = 1(6)
  show ?case
  proof (cases "i < length (tests s)")
    case False
    then show ?thesis using inv nms by (simp add: run_loop_done)
  next
    case True
    let ?t = "tests s ! i"
    obtain r s1 where ex: "exec ev sc (fn ?t) s = (r, s1)" by (cases "exec ev sc (fn ?t) s")
    from True have mem: "?t \<in> set (tests s)" by simp
    from body inv mem have pb: "P (fn ?t)" and nt: "N (name ?t)" by blast+
    from step pb inv have "I (snd (exec ev sc (fn ?t) s))" by blast
    with ex have inv1: "I s1" by simp
    show ?thesis
    proof (cases r)
      case None
      let ?rs = "rs @ [\<lparr>case_name = name ?t, case_passed = True, case_error = None\<rparr>]"
      have n': "\<forall>r\<in>set ?rs. N (case_name r)" using nms nt by simp
      have "run_loop ev sc i rs s = run_loop ev sc (Suc i) ?rs s1"
        by (rule run_loop_pass[OF True ex[unfolded None]])
      then show ?thesis
        using 1(1)[OF True ex[symmetric] None step body inv1 n'] by simp
    next
      case (Some e)
      show ?thesis
      proof (cases "message_of e")
        case (Inl te)
        have "run_loop ev sc i rs s = (Inl te, s1)"
          by (rule run_loop_reject[OF True ex[unfolded Some] Inl])
        then show ?thesis using inv1 by simp
      next
        case (Inr m)
        let ?rs = "rs @ [\<lparr>case_name = name ?t, case_passed = False, case_error = m\<rparr>]"
        have n': "\<forall>r\<in>set ?rs. N (case_name r)" using nms nt by simp
        have "run_loop ev sc i rs s = run_loop ev sc (Suc i) ?rs s1"
          by (rule run_loop_fail[OF True ex[unfolded Some] Inr])
        then show ?thesis
          using 1(2)[OF True ex[symmetric] Some Inr step body inv1 n'] by simp
      qed
    qed
  qed
qed

section \<open>Isolation of the sandbox registry\<close>

text \<open>
  The names a script can give its cases: the name of an \<open>it\<close> call of its text, alone or
  behind the name of one of its \<open>describe\<close> calls and the separator.
\<close>

fun describe_names :: "stmt \<Rightarrow> string list"
and describe_names_list :: "stmt list \<Rightarrow> string list" where
  "describe_names (Describe nm b) = nm # describe_names_list b"
| "describe_names (It nm b) = describe_names_list b"
| "describe_names (Try b) = describe_names_list b"
| "describe_names (Throw e) = []"
| "describe_names (ExpectToBe a e) = []"
| "describe_names (ExpectNotToBe a e) = []"
| "describe_names (RegisterApp a) = []"
| "describe_names Cleanup = []"
| "describe_names Render = []"
| "describe_names_list [] = []"
| "describe_names_list (x # xs) = describe_names x @ describe_names_list xs"

definition possible_names :: "stmt list \<Rightarrow> string list" where
  "possible_names p =
     it_names_list p @
     concat (map (\<lambda>d. map (\<lambda>n. d @ '' > '' @ n) (it_names_list p)) (describe_names_list p))"

fun statements :: "source \<Rightarrow> stmt list" where
  "statements (Unparsable m) = []"
| "statements (Script p) = p"
| "statements (Overrun p) = p"

definition names_inv :: "string set \<Rightarrow> string set \<Rightarrow> state \<Rightarrow> bool" where
  "names_inv Ns Ds s \<longleftrightarrow>
     (\<forall>t\<in>set (tests s).
        (name t \<in> Ns \<or> (\<exists>d\<in>Ds. \<exists>n\<in>Ns. name t = d @ '' > '' @ n))
        \<and> set (it_names_list (fn t)) \<subseteq> Ns \<and> set (describe_names_list (fn t)) \<subseteq> Ds)
     \<and> (currentDescribe s = [] \<or> currentDescribe s \<in> Ds)"

lemma names_inv_app [simp]:
  "names_inv Ns Ds (s\<lparr>registeredApp := x\<rparr>) = names_inv Ns Ds s"
  by (simp add: names_inv_def)

lemma exec_names_inv:
  "set (it_names_list b) \<subseteq> Ns \<Longrightarrow> set (describe_names_list b) \<subseteq> Ds \<Longrightarrow> names_inv Ns Ds s
     \<Longrightarrow> names_inv Ns Ds (snd (exec ev sc b s))"
  "set (it_names x) \<subseteq> Ns \<Longrightarrow> set (describe_names x) \<subseteq> Ds \<Longrightarrow> names_inv Ns Ds s
     \<Longrightarrow> names_inv Ns Ds (snd (exec1 ev sc x s))"
proof (induction ev sc b s and ev sc x s rule: exec_exec1.induct)
  case (2 ev sc x xs s)
  obtain r s1 where e1: "exec1 ev sc x s = (r, s1)" by (cases "exec1 ev sc x s")
  from 2(1) 2(3,4,5) e1 have i1: "names_inv Ns Ds s1" by simp
  show ?case
  proof (cases r)
    case None
    from 2(2)[OF e1[symmetric, unfolded None]] 2(3,4) i1
    have "names_inv Ns Ds (snd (exec ev sc xs s1))" by simp
    then show ?thesis using e1 None by simp
  next
    case (Some e)
    then show ?thesis using e1 i1 by simp
  qed
next
  case (3 ev sc nm f s)
  then show ?case by (auto simp: names_inv_def it_def)
next
  case (4 ev sc nm b s)
  have "names_inv Ns Ds (s\<lparr>currentDescribe := nm\<rparr>)"
    using 4(2,3,4) by (simp add: names_inv_def)
  with 4(1)[of "s\<lparr>currentDescribe := nm\<rparr>"] 4(2,3)
  have i1: "names_inv Ns Ds (snd (exec ev sc b (s\<lparr>currentDescribe := nm\<rparr>)))" by simp
  obtain r s1 where ex: "exec ev sc b (s\<lparr>currentDescribe := nm\<rparr>) = (r, s1)"
    by (cases "exec ev sc b (s\<lparr>currentDescribe := nm\<rparr>)")
  show ?case
  proof (cases r)
    case None
    then show ?thesis using ex i1 by (simp add: describe_def names_inv_def)
  next
    case (Some e)
    then show ?thesis using ex i1 by (simp add: describe_def)
  qed
next
  case (9 ev sc s)
  then show ?case by (simp add: cleanup_def)
next
  case (10 ev sc s)
  then show ?case by (cases sc) (simp_all add: lift_def split: sum.splits)
qed (simp_all add: lift_def registerApp_def split: sum.splits)

lemma set_possible_names:
  "x \<in> set (possible_names p) \<longleftrightarrow>
     x \<in> set (it_names_list p) \<or>
     (\<exists>d\<in>set (describe_names_list p). \<exists>n\<in>set (it_names_list p). x = d @ '' > '' @ n)"
  by (auto simp: possible_names_def)

lemma runTestsInVM_host_registry:
  "tests (snd (runTestsInVM ev src g)) = tests g \<and>
   currentDescribe (snd (runTestsInVM ev src g)) = currentDescribe g"
  by (simp add: runTestsInVM_def split: prod.splits option.splits sum.splits)

lemma vm_names_inv:
  "names_inv (set (it_names_list (statements src))) (set (describe_names_list (statements src)))
     (snd (vm_runInContext ev src (sandbox g)))"
proof -
  let ?Ns = "set (it_names_list (statements src))" and ?Ds = "set (describe_names_list (statements src))"
  have start: "names_inv ?Ns ?Ds (sandbox g)" by (simp add: names_inv_def sandbox_def)
  show ?thesis
  proof (cases src)
    case (Unparsable m)
    then show ?thesis using start by simp
  next
    case (Script p)
    then show ?thesis using exec_names_inv(1)[of p ?Ns ?Ds "sandbox g" ev VM] start by simp
  next
    case (Overrun p)
    obtain r s1 where ex: "exec ev VM p (sandbox g) = (r, s1)" by (cases "exec ev VM p (sandbox g)")
    have "names_inv ?Ns ?Ds (snd (exec ev VM p (sandbox g)))"
      using exec_names_inv(1)[of p ?Ns ?Ds "sandbox g" ev VM] start Overrun by simp
    then show ?thesis using Overrun ex by (cases r) simp_all
  qed
qed

lemma runTestsInVM_names:
  assumes "runTestsInVM ev src g = (Inr rep, g')"
  shows "\<forall>r\<in>set (results rep).
           case_name r \<in> set (possible_names (statements src)) \<union> {''Code execution''}"
proof -
  let ?Ns = "set (it_names_list (statements src))" and ?Ds = "set (describe_names_list (statements src))"
  let ?N = "\<lambda>n. n \<in> set (possible_names (statements src))"
  from assms have nd: "node ev" by (auto simp: runTestsInVM_def split: if_splits)
  obtain r sb where vm: "vm_runInContext ev src (sandbox g) = (r, sb)"
    by (cases "vm_runInContext ev src (sandbox g)")
  have inv: "names_inv ?Ns ?Ds sb" using vm_names_inv[of src ev g] vm by simp
  show ?thesis
  proof (cases r)
    case (Some e)
    with assms nd vm show ?thesis
      by (auto simp: runTestsInVM_def split: sum.splits)
  next
    case None
    obtain q sb' where rl: "run_loop ev VM 0 [] sb = (q, sb')" by (cases "run_loop ev VM 0 [] sb")
    with assms nd vm None have q: "q = Inr (results rep)"
      by (auto simp: runTestsInVM_def split: sum.splits)
    have step: "\<forall>b s. set (it_names_list b) \<subseteq> ?Ns \<and> set (describe_names_list b) \<subseteq> ?Ds
        \<longrightarrow> names_inv ?Ns ?Ds s \<longrightarrow> names_inv ?Ns ?Ds (snd (exec ev VM b s))"
      using exec_names_inv(1) by blast
    have body: "\<forall>s t. names_inv ?Ns ?Ds s \<longrightarrow> t \<in> set (tests s) \<longrightarrow>
        (set (it_names_list (fn t)) \<subseteq> ?Ns \<and> set (describe_names_list (fn t)) \<subseteq> ?Ds)
        \<and> name t \<in> set (possible_names (statements src))"
      unfolding names_inv_def set_possible_names by blast
    have none: "\<forall>r\<in>set ([]::CaseResult list). case_name r \<in> set (possible_names (statements src))"
      by simp
    have "\<forall>rs'. fst (run_loop ev VM 0 [] sb) = Inr rs' \<longrightarrow>
            (\<forall>r\<in>set rs'. case_name r \<in> set (possible_names (statements src)))"
      using run_loop_invariant[of "\<lambda>b. set (it_names_list b) \<subseteq> ?Ns \<and> set (describe_names_list b) \<subseteq> ?Ds"
          "names_inv ?Ns ?Ds" ev VM "\<lambda>n. n \<in> set (possible_names (statements src))" sb "[]" 0,
          OF step body inv none]
      by blast
    then show ?thesis using rl q by simp
  qed
qed

lemma runTestsInVM_no_cases:
  assumes "runTestsInVM ev src g = (Inr rep, g')"
      and "it_names_list (statements src) = []"
      and "fst (vm_runInContext ev src (sandbox g)) = None"
  shows "rep = \<lparr>passed = True, results = []\<rparr>"
proof -
  from assms(1) have nd: "node ev" by (auto simp: runTestsInVM_def split: if_splits)
  obtain sb where vm: "vm_runInContext ev src (sandbox g) = (None, sb)"
    using assms(3) by (cases "vm_runInContext ev src (sandbox g)") simp
  have "tests sb = []"
  proof (cases src)
    case (Unparsable m)
    then show ?thesis using vm by simp
  next
    case (Script p)
    then show ?thesis using exec_registers_nothing(1)[of p ev VM "sandbox g"] assms(2) vm
      by (simp add: sandbox_def)
  next
    case (Overrun p)
    then show ?thesis using vm by (simp split: prod.splits option.splits)
  qed
  then have "run_loop ev VM 0 [] sb = (Inr [], sb)" by (simp add: run_loop_done)
  with assms(1) nd vm show ?thesis by (simp add: runTestsInVM_def)
qed

text \<open>
  C1. Take any two sources \<open>A\<close> and \<open>B\<close> and any host state, run \<open>A\<close> and then \<open>B\<close>.
  Every entry of the report for \<open>B\<close> is named by a case that \<open>B\<close>'s own text registers
  (or is the single entry of the abort path); when \<open>B\<close> registers no case and runs to its
  end, the report is \<open>{passed: true, results: []}\<close>, whatever \<open>A\<close> registered. The
  host's own registry and group name are the same before and after both calls.
\<close>

theorem sandbox_registry_isolated:
  assumes "runTestsInVM ev B (snd (runTestsInVM ev A h)) = (Inr rep, h')"
  shows "(\<forall>r\<in>set (results rep).
            case_name r \<in> set (possible_names (statements B)) \<union> {''Code execution''})
       \<and> (it_names_list (statements B) = []
            \<and> fst (vm_runInContext ev B (sandbox (snd (runTestsInVM ev A h)))) = None
          \<longrightarrow> rep = \<lparr>passed = True, results = []\<rparr>)
       \<and> tests h' = tests h \<and> currentDescribe h' = currentDescribe h"
proof -
  have "tests h' = tests h \<and> currentDescribe h' = currentDescribe h"
    using runTestsInVM_host_registry[of ev B "snd (runTestsInVM ev A h)"]
      runTestsInVM_host_registry[of ev A h] assms by simp
  then show ?thesis
    using runTestsInVM_names[OF assms] runTestsInVM_no_cases[OF assms] by blast
qed

text \<open>
  An instance: after a run that registered \<open>foo\<close>, an empty source reports no results and
  a source with one grouped case reports that case alone.
\<close>

lemma after_foo_run:
  "runTestsInVM plain_env (Script [It ''foo'' []]) init =
     (Inr \<lparr>passed = True,
           results = [\<lparr>case_name = ''foo'', case_passed = True, case_error = None\<rparr>]\<rparr>, init)"
  by (simp add: runTestsInVM_def plain_env_def sandbox_def init_def it_def run_loop.simps)

theorem sandbox_registry_isolated_witness:
  "runTestsInVM plain_env (Script []) (snd (runTestsInVM plain_env (Script [It ''foo'' []]) init))
     = (Inr \<lparr>passed = True, results = []\<rparr>, init)
   \<and> runTestsInVM plain_env (Script [Describe ''g'' [It ''bar'' []]])
        (snd (runTestsInVM plain_env (Script [It ''foo'' []]) init))
     = (Inr \<lparr>passed = True,
             results = [\<lparr>case_name = ''g > bar'', case_passed = True, case_error = None\<rparr>]\<rparr>, init)
   \<and> ''g > bar'' \<in> set (possible_names [Describe ''g'' [It ''bar'' []]]) \<union> {''Code execution''}"
proof -
  let ?hA = "snd (runTestsInVM plain_env (Script [It ''foo'' []]) init)"
  have hA: "?hA = init" by (simp add: after_foo_run)
  have b: "runTestsInVM plain_env (Script []) ?hA = (Inr \<lparr>passed = True, results = []\<rparr>, init)"
    unfolding hA by (simp add: runTestsInVM_def plain_env_def sandbox_def init_def run_loop.simps)
  have c: "runTestsInVM plain_env (Script [Describe ''g'' [It ''bar'' []]]) ?hA
     = (Inr \<lparr>passed = True,
             results = [\<lparr>case_name = ''g > bar'', case_passed = True, case_error = None\<rparr>]\<rparr>, init)"
    unfolding hA
    by (simp add: runTestsInVM_def plain_env_def sandbox_def init_def it_def describe_def run_loop.simps)
  from sandbox_registry_isolated[OF c]
  have "\<forall>r\<in>set [\<lparr>case_name = ''g > bar'', case_passed = True, case_error = None\<rparr>].
          case_name r \<in> set (possible_names (statements (Script [Describe ''g'' [It ''bar'' []]])))
            \<union> {''Code execution''}"
    by simp
  then have m: "''g > bar'' \<in> set (possible_names [Describe ''g'' [It ''bar'' []]]) \<union> {''Code execution''}"
    by simp
  from b c m show ?thesis by blast
qed

section \<open>Group context after a throwing body\<close>

text \<open>
  C2. The script \<open>try { describe('g', () => { throw new Error('boom') }) } catch (_) {}\<close>
  followed by \<open>it('t', () => {})\<close>, run against the host registry: the group name is
  still \<open>g\<close> after \<open>describe\<close> has raised, and the unrelated case is registered as
  \<open>g > t\<close>.
\<close>

theorem describe_throw_keeps_group:
  "exec1 plain_env Host (Describe ''g'' [Throw (ErrorObj ''boom'')]) init
     = (Some (ErrorObj ''boom''), init\<lparr>currentDescribe := ''g''\<rparr>)
   \<and> snd (exec plain_env Host
        [Try [Describe ''g'' [Throw (ErrorObj ''boom'')]], It ''t'' []] init)
     = \<lparr>tests = [\<lparr>name = ''g > t'', fn = []\<rparr>], currentDescribe = ''g'', registeredApp = None\<rparr>"
proof -
  have "exec1 plain_env Host (Describe ''g'' [Throw (ErrorObj ''boom'')]) init
     = (Some (ErrorObj ''boom''), init\<lparr>currentDescribe := ''g''\<rparr>)"
    by (simp add: describe_def)
  moreover have "snd (exec plain_env Host
        [Try [Describe ''g'' [Throw (ErrorObj ''boom'')]], It ''t'' []] init)
     = \<lparr>tests = [\<lparr>name = ''g > t'', fn = []\<rparr>], currentDescribe = ''g'', registeredApp = None\<rparr>"
    by (simp add: describe_def it_def init_def)
  ultimately show ?thesis by (rule conjI)
qed

section \<open>The execution-abort path of the Sandbox Runner\<close>

definition abort_report :: "string \<Rightarrow> TestResult" where
  "abort_report m =
     \<lparr>passed = False,
      results = [\<lparr>case_name = ''Code execution'', case_passed = False,
                  case_error = Some (''Failed to execute code: '' @ m)\<rparr>]\<rparr>"

text \<open>
  In Node, when running the source raises a value whose \<open>message\<close> can be read
  (anything but \<open>null\<close> and \<open>undefined\<close>), the report is the single entry
  \<open>Code execution\<close>, failed, with \<open>Failed to execute code:\<close> and the message (the
  text \<open>undefined\<close> when the value has none); whatever the script had registered before
  is not drained. A syntax error and a timeout are such raises.
\<close>

theorem runTestsInVM_abort:
  assumes "node ev"
  shows "(vm_runInContext ev src (sandbox h) = (Some e, sb) \<and> message_of e = Inr m
            \<longrightarrow> fst (runTestsInVM ev src h) = Inr (abort_report (template m)))
       \<and> fst (runTestsInVM ev (Unparsable msg) h) = Inr (abort_report msg)
       \<and> (fst (exec ev VM p (sandbox h)) = None
            \<longrightarrow> fst (runTestsInVM ev (Overrun p) h) =
                Inr (abort_report ''Script execution timed out after 30000ms''))"
proof -
  have 1: "vm_runInContext ev src (sandbox h) = (Some e, sb) \<and> message_of e = Inr m
            \<longrightarrow> fst (runTestsInVM ev src h) = Inr (abort_report (template m))"
    using assms by (simp add: runTestsInVM_def abort_report_def)
  have 2: "fst (runTestsInVM ev (Unparsable msg) h) = Inr (abort_report msg)"
    using assms by (simp add: runTestsInVM_def abort_report_def)
  have 3: "fst (exec ev VM p (sandbox h)) = None
            \<longrightarrow> fst (runTestsInVM ev (Overrun p) h) =
                Inr (abort_report ''Script execution timed out after 30000ms'')"
  proof
    assume a: "fst (exec ev VM p (sandbox h)) = None"
    obtain s1 where "exec ev VM p (sandbox h) = (None, s1)"
      using a by (cases "exec ev VM p (sandbox h)") simp
    then show "fst (runTestsInVM ev (Overrun p) h) =
                Inr (abort_report ''Script execution timed out after 30000ms'')"
      using assms by (simp add: runTestsInVM_def abort_report_def timeout_error_def)
  qed
  from 1 2 3 show ?thesis by blast
qed

theorem runTestsInVM_abort_witness:
  "fst (runTestsInVM plain_env (Script [It ''a'' [], Throw (ErrorObj ''boom'')]) init)
     = Inr (abort_report ''boom'')
   \<and> fst (runTestsInVM plain_env (Unparsable ''Unexpected token'') init)
     = Inr (abort_report ''Unexpected token'')
   \<and> fst (runTestsInVM plain_env (Overrun [It ''a'' []]) init)
     = Inr (abort_report ''Script execution timed out after 30000ms'')"
proof -
  have n: "node plain_env" by (simp add: plain_env_def)
  have r: "vm_runInContext plain_env (Script [It ''a'' [], Throw (ErrorObj ''boom'')]) (sandbox init)
             = (Some (ErrorObj ''boom''), it ''a'' [] (sandbox init))
           \<and> message_of (ErrorObj ''boom'') = Inr (Some ''boom'')"
    by simp
  have o: "fst (exec plain_env VM [It ''a'' []] (sandbox init)) = None" by simp
  have 1: "fst (runTestsInVM plain_env (Script [It ''a'' [], Throw (ErrorObj ''boom'')]) init)
     = Inr (abort_report (template (Some ''boom'')))"
    using runTestsInVM_abort[OF n, of "Script [It ''a'' [], Throw (ErrorObj ''boom'')]" init
        "ErrorObj ''boom''" "it ''a'' [] (sandbox init)" "Some ''boom''"] r by blast
  have 2: "fst (runTestsInVM plain_env (Unparsable ''Unexpected token'') init)
     = Inr (abort_report ''Unexpected token'')"
    using runTestsInVM_abort[OF n] by blast
  have 3: "fst (runTestsInVM plain_env (Overrun [It ''a'' []]) init)
     = Inr (abort_report ''Script execution timed out after 30000ms'')"
    using runTestsInVM_abort[OF n, of _ init _ _ _ _ "[It ''a'' []]"] o by blast
  from 1 2 3 show ?thesis by simp
qed

text \<open>
  C3. The source text \<open>throw null\<close> raises at top level, before any registration. The
  \<open>catch\<close> block of lines 320-331 reads \<open>error.message\<close> of the thrown \<open>null\<close>,
  that read raises a \<open>TypeError\<close>, and \<open>runTestsInVM\<close> rejects with it: no report is
  returned, where the one-entry report \<open>Code execution\<close> was due.
\<close>

theorem runTestsInVM_null_throw_rejects:
  "runTestsInVM plain_env (Script [Throw (Thrown JNull)]) init
     = (Inl (cannot_read_message ''null''), init)"
  by (simp add: runTestsInVM_def plain_env_def sandbox_def init_def)

section \<open>The report of the Local Runner\<close>

text \<open>
  When no registered body registers a case and none lets \<open>null\<close> or \<open>undefined\<close>
  escape, \<open>runTests()\<close> returns a report with one entry per registered case, in
  registration order (names are unique in intent only, so order is stated on the list of
  names), whose \<open>passed\<close> is the conjunction of the entries' \<open>passed\<close>; over an empty
  registry the report is \<open>{passed: true, results: []}\<close>.
\<close>

theorem runTests_report:
  assumes "\<forall>t\<in>set (tests s). it_names_list (fn t) = [] \<and> readable_list (fn t)"
  shows "\<exists>rep s'. runTests ev s = (Inr rep, s')
           \<and> map case_name (results rep) = map name (tests s)
           \<and> length (results rep) = length (tests s)
           \<and> passed rep = (\<forall>r\<in>set (results rep). case_passed r)
           \<and> (tests s = [] \<longrightarrow> rep = \<lparr>passed = True, results = []\<rparr>)"
proof -
  from run_loop_fixed[OF assms, of ev Host 0 "[]"] obtain rs s1 where
    rl: "run_loop ev Host 0 [] s = (Inr rs, s1)" and nm: "map case_name rs = map name (tests s)"
    by auto
  let ?rep = "\<lparr>passed = list_all case_passed rs, results = rs\<rparr>"
  have run: "runTests ev s = (Inr ?rep, s1\<lparr>tests := []\<rparr>)"
    by (simp add: runTests_def rl)
  have len: "length rs = length (tests s)"
    using nm by (metis length_map)
  have "tests s = [] \<longrightarrow> ?rep = \<lparr>passed = True, results = []\<rparr>"
    using len by auto
  then show ?thesis using run nm len by (simp add: list_all_iff)
qed

theorem runTests_report_witness:
  "\<exists>rep s'. runTests plain_env two_cases = (Inr rep, s')
      \<and> map case_name (results rep) = [''a'', ''b'']
      \<and> length (results rep) = 2
      \<and> passed rep = (\<forall>r\<in>set (results rep). case_passed r)
      \<and> (tests two_cases = [] \<longrightarrow> rep = \<lparr>passed = True, results = []\<rparr>)"
proof -
  have h: "\<forall>t\<in>set (tests two_cases). it_names_list (fn t) = [] \<and> readable_list (fn t)"
    by (simp add: two_cases_def readable_exn_def)
  have n: "map name (tests two_cases) = [''a'', ''b'']" "length (tests two_cases) = 2"
    by (simp_all add: two_cases_def)
  from runTests_report[OF h, of plain_env] show ?thesis unfolding n .
qed

text \<open>
  C4. A registry of one case whose body throws \<open>null\<close> (and registers nothing): the
  \<open>catch\<close> block of lines 97-99 reads \<open>e.message\<close>, that read raises a
  \<open>TypeError\<close>, and \<open>runTests()\<close> rejects with it. No report is returned, where a
  report with one failed entry was due.
\<close>

theorem runTests_null_throw_rejects:
  "runTests plain_env null_case = (Inl (cannot_read_message ''null''), null_case)"
  by (simp add: runTests_def null_case_def run_loop.simps)

section \<open>The contract of \<open>waitFor\<close>\<close>













lemma waitFor_loop_hang:
  "below (clock (Suc i) - t0) tmo \<Longrightarrow> cb i = Hangs \<Longrightarrow>
     waitFor_loop num clock cb tmo ivl t0 i hist tm lastError = None"
  by (subst waitFor_loop.simps) simp











section \<open>Failures and their messages\<close>

text \<open>
  C6. A body that throws a value with no \<open>message\<close> property, here the string
  \<open>boom\<close>, is recorded as failed with no error text at all, by \<open>runTests\<close> and by
  the drain phase of \<open>runTestsInVM\<close> alike.
\<close>

theorem failure_without_message:
  "runTests plain_env string_case =
     (Inr \<lparr>passed = False,
           results = [\<lparr>case_name = ''t'', case_passed = False, case_error = None\<rparr>]\<rparr>,
      init)
   \<and> fst (runTestsInVM plain_env (Script [It ''t'' [Throw (Thrown (JString ''boom''))]]) init) =
      Inr \<lparr>passed = False,
           results = [\<lparr>case_name = ''t'', case_passed = False, case_error = None\<rparr>]\<rparr>"
proof -
  have "runTests plain_env string_case =
     (Inr \<lparr>passed = False,
           results = [\<lparr>case_name = ''t'', case_passed = False, case_error = None\<rparr>]\<rparr>,
      init)"
    by (simp add: runTests_def string_case_def init_def run_loop.simps)
  moreover have "fst (runTestsInVM plain_env (Script [It ''t'' [Throw (Thrown (JString ''boom''))]]) init) =
      Inr \<lparr>passed = False,
           results = [\<lparr>case_name = ''t'', case_passed = False, case_error = None\<rparr>]\<rparr>"
    by (simp add: runTestsInVM_def plain_env_def sandbox_def init_def it_def run_loop.simps)
  ultimately show ?thesis by (rule conjI)
qed

section \<open>Strict-equality assertions\<close>

text \<open>\<open>typeof\<close>-like tag of a value (with \<open>null\<close> on its own), to say "no coercion".\<close>

fun type_of :: "jsval \<Rightarrow> string" where
  "type_of JUndefined = ''undefined''"
| "type_of JNull = ''null''"
| "type_of (JBool _) = ''boolean''"
| "type_of (JNumber _) = ''number''"
| "type_of (JString _) = ''string''"
| "type_of (JBigInt _) = ''bigint''"
| "type_of (JObject _) = ''object''"

lemma strict_eq_same_type: "strict_eq a e \<Longrightarrow> type_of a = type_of e"
  by (cases a; cases e) simp_all

lemma strict_eq_iff: "strict_eq a e \<longleftrightarrow> a = e \<and> a \<noteq> JNumber NaN"
  by (cases a; cases e) auto

text \<open>
  On values that \<open>JSON.stringify\<close> serialises the contract holds: \<open>toBe\<close> throws
  exactly when the two values are not strictly equal, the error being \<open>Expected\<close>, the
  serialised \<open>e\<close>, \<open>, got\<close> and the serialised \<open>a\<close>; \<open>not.toBe\<close> throws exactly
  when they are strictly equal; \<open>NaN\<close> is not equal to itself. Whether something is
  thrown never depends on \<open>JSON.stringify\<close>.
\<close>

lemma toBe_raises_iff:
  "((\<exists>x. toBe str a e = Inl x) \<longleftrightarrow> \<not> strict_eq a e)
   \<and> ((\<exists>x. not_toBe str a e = Inl x) \<longleftrightarrow> strict_eq a e)
   \<and> (strict_eq a e \<longleftrightarrow> a = e \<and> a \<noteq> JNumber NaN)
   \<and> (type_of a \<noteq> type_of e \<longrightarrow> \<not> strict_eq a e)"
proof -
  have 1: "(\<exists>x. toBe str a e = Inl x) \<longleftrightarrow> \<not> strict_eq a e"
    by (simp add: toBe_def split: json.splits)
  have 2: "(\<exists>x. not_toBe str a e = Inl x) \<longleftrightarrow> strict_eq a e"
    by (simp add: not_toBe_def split: json.splits)
  have 3: "strict_eq a e \<longleftrightarrow> a = e \<and> a \<noteq> JNumber NaN" by (rule strict_eq_iff)
  have 4: "type_of a \<noteq> type_of e \<longrightarrow> \<not> strict_eq a e" using strict_eq_same_type by blast
  from 1 2 3 4 show ?thesis by blast
qed

lemma toBe_message:
  "str e = Text se \<Longrightarrow> str a = Text sa \<Longrightarrow> \<not> strict_eq a e \<Longrightarrow>
     toBe str a e = Inl (ErrorObj (''Expected '' @ se @ '', got '' @ sa))"
  by (simp add: toBe_def)

lemma not_toBe_message:
  "str e = Text se \<Longrightarrow> strict_eq a e \<Longrightarrow> not_toBe str a e = Inl (ErrorObj (''Expected not '' @ se))"
  by (simp add: not_toBe_def)

lemma toBe_NaN: "\<exists>x. toBe str (JNumber NaN) (JNumber NaN) = Inl x"
  by (simp add: toBe_def split: json.splits)

text \<open>
  C7. \<open>expect(1n).toBe(2n)\<close>: the two BigInts are not strictly equal, the message is
  being built, \<open>JSON.stringify(2n)\<close> throws, and what leaves \<open>toBe\<close> is that
  \<open>TypeError\<close>, whose message embeds neither value. \<open>expect(1n).not.toBe(1n)\<close> ends
  the same way. On numbers the same assertions throw the assertion error.
\<close>

theorem toBe_unserialisable:
  "toBe sample_stringify (JBigInt 1) (JBigInt 2) = Inl (ErrorObj ''Do not know how to serialize a BigInt'')
   \<and> not_toBe sample_stringify (JBigInt 1) (JBigInt 1)
       = Inl (ErrorObj ''Do not know how to serialize a BigInt'')
   \<and> toBe sample_stringify (JNumber (Finite 1)) (JNumber (Finite 2))
       = Inl (ErrorObj ''Expected v, got v'')"
proof -
  have 1: "toBe sample_stringify (JBigInt 1) (JBigInt 2)
      = Inl (ErrorObj ''Do not know how to serialize a BigInt'')"
    by (simp add: toBe_def sample_stringify_def)
  have 2: "not_toBe sample_stringify (JBigInt 1) (JBigInt 1)
      = Inl (ErrorObj ''Do not know how to serialize a BigInt'')"
    by (simp add: not_toBe_def sample_stringify_def)
  have 3: "toBe sample_stringify (JNumber (Finite 1)) (JNumber (Finite 2))
      = Inl (ErrorObj ''Expected v, got v'')"
    by (simp add: toBe_def sample_stringify_def)
  from 1 2 3 show ?thesis by blast
qed

section \<open>Reset of the Local Runner\<close>

text \<open>
  Whenever a call of \<open>runTests()\<close> returns a report, however many cases failed, the
  registry is empty afterwards, and a second call with no registration in between returns
  exactly \<open>{passed: true, results: []}\<close> and leaves the state as it is.
\<close>

theorem runTests_reset:
  assumes "runTests ev s = (Inr rep, s')"
  shows "tests s' = [] \<and> runTests ev s' = (Inr \<lparr>passed = True, results = []\<rparr>, s')"
proof -
  from assms obtain rs s1 where s': "s' = s1\<lparr>tests := []\<rparr>"
    by (auto simp: runTests_def split: prod.splits sum.splits)
  then have empty: "tests s' = []" by simp
  then have "run_loop ev Host 0 [] s' = (Inr [], s')" by (simp add: run_loop_done)
  then have "runTests ev s' = (Inr \<lparr>passed = True, results = []\<rparr>, s'\<lparr>tests := []\<rparr>)"
    by (simp add: runTests_def)
  moreover have "s'\<lparr>tests := []\<rparr> = s'" using s' by simp
  ultimately show ?thesis using empty by simp
qed

theorem runTests_reset_witness:
  "runTests plain_env two_cases =
     (Inr \<lparr>passed = False,
           results = [\<lparr>case_name = ''a'', case_passed = True, case_error = None\<rparr>,
                      \<lparr>case_name = ''b'', case_passed = False, case_error = Some ''x''\<rparr>]\<rparr>,
      init)
   \<and> tests init = []
   \<and> runTests plain_env init = (Inr \<lparr>passed = True, results = []\<rparr>, init)"
  using runTests_reset[OF runTests_two_cases] runTests_two_cases by simp

text \<open>
  C8. A registry of two cases, the first passing, the second throwing \<open>undefined\<close>.
  The call ends by rejecting, from inside the \<open>catch\<close> block, so \<open>tests.length = 0\<close>
  (line 102) is never reached: both cases are still registered after the call, and a second
  call with no registration in between runs them again and rejects again, where
  \<open>{passed: true, results: []}\<close> was due.
\<close>

theorem runTests_reject_keeps_registry:
  "runTests plain_env stuck_cases = (Inl (cannot_read_message ''undefined''), stuck_cases)
   \<and> map name (tests (snd (runTests plain_env stuck_cases))) = [''a'', ''t'']
   \<and> fst (runTests plain_env (snd (runTests plain_env stuck_cases)))
       = Inl (cannot_read_message ''undefined'')"
proof -
  have 1: "runTests plain_env stuck_cases = (Inl (cannot_read_message ''undefined''), stuck_cases)"
    by (simp add: runTests_def stuck_cases_def run_loop.simps)
  have 2: "map name (tests stuck_cases) = [''a'', ''t'']"
    by (simp add: stuck_cases_def)
  from 1 2 show ?thesis by simp
qed

section \<open>The registered App across sandbox runs\<close>

text \<open>
  \<open>app_free\<close>: a piece of script with no call of \<open>registerApp\<close> or \<open>cleanup\<close> anywhere,
  the bodies it registers included.
\<close>

fun app_free :: "stmt \<Rightarrow> bool"
and app_free_list :: "stmt list \<Rightarrow> bool" where
  "app_free (RegisterApp a) = False"
| "app_free Cleanup = False"
| "app_free (It nm b) = app_free_list b"
| "app_free (Describe nm b) = app_free_list b"
| "app_free (Try b) = app_free_list b"
| "app_free (Throw e) = True"
| "app_free (ExpectToBe a e) = True"
| "app_free (ExpectNotToBe a e) = True"
| "app_free Render = True"
| "app_free_list [] = True"
| "app_free_list (x # xs) = (app_free x \<and> app_free_list xs)"

definition app_inv :: "app option \<Rightarrow> state \<Rightarrow> bool" where
  "app_inv x s \<longleftrightarrow> registeredApp s = x \<and> (\<forall>t\<in>set (tests s). app_free_list (fn t))"

lemma exec_app_inv:
  "app_free_list b \<Longrightarrow> app_inv x s \<Longrightarrow> app_inv x (snd (exec ev sc b s))"
  "app_free y \<Longrightarrow> app_inv x s \<Longrightarrow> app_inv x (snd (exec1 ev sc y s))"
proof (induction ev sc b s and ev sc y s rule: exec_exec1.induct)
  case (2 ev sc y ys s)
  obtain r s1 where e1: "exec1 ev sc y s = (r, s1)" by (cases "exec1 ev sc y s")
  from 2(1) 2(3,4) e1 have i1: "app_inv x s1" by simp
  show ?case
  proof (cases r)
    case None
    from 2(2)[OF e1[symmetric, unfolded None]] 2(3) i1
    have "app_inv x (snd (exec ev sc ys s1))" by simp
    then show ?thesis using e1 None by simp
  next
    case (Some e)
    then show ?thesis using e1 i1 by simp
  qed
next
  case (3 ev sc nm f s)
  then show ?case by (simp add: app_inv_def it_def)
next
  case (4 ev sc nm b s)
  have "app_inv x (s\<lparr>currentDescribe := nm\<rparr>)" using 4(3) by (simp add: app_inv_def)
  with 4(1)[of "s\<lparr>currentDescribe := nm\<rparr>"] 4(2)
  have i1: "app_inv x (snd (exec ev sc b (s\<lparr>currentDescribe := nm\<rparr>)))" by simp
  obtain r s1 where ex: "exec ev sc b (s\<lparr>currentDescribe := nm\<rparr>) = (r, s1)"
    by (cases "exec ev sc b (s\<lparr>currentDescribe := nm\<rparr>)")
  show ?case
  proof (cases r)
    case None
    then show ?thesis using ex i1 by (simp add: describe_def app_inv_def)
  next
    case (Some e)
    then show ?thesis using ex i1 by (simp add: describe_def)
  qed
next
  case (10 ev sc s)
  then show ?case by (cases sc) (simp_all add: lift_def split: sum.splits)
qed (simp_all add: lift_def split: sum.splits)

lemma exec_append:
  "exec ev sc (xs @ ys) s =
     (case exec ev sc xs s of
        (None, s') \<Rightarrow> exec ev sc ys s'
      | (Some e, s') \<Rightarrow> (Some e, s'))"
proof (induction xs arbitrary: s)
  case Nil
  show ?case by simp
next
  case (Cons x xs)
  obtain r s1 where e1: "exec1 ev sc x s = (r, s1)" by (cases "exec1 ev sc x s")
  show ?case using e1 Cons[of s1] by (cases r) simp_all
qed

lemma run_loop_app_inv:
  assumes "app_inv x s"
  shows "app_inv x (snd (run_loop ev sc i rs s))"
proof -
  have step: "\<forall>b s. app_free_list b \<longrightarrow> app_inv x s \<longrightarrow> app_inv x (snd (exec ev sc b s))"
    using exec_app_inv(1) by blast
  have body: "\<forall>s t. app_inv x s \<longrightarrow> t \<in> set (tests s) \<longrightarrow> app_free_list (fn t) \<and> True"
    by (simp add: app_inv_def)
  have none: "\<forall>r\<in>set rs. True" by simp
  from run_loop_invariant[of app_free_list "app_inv x" ev sc "\<lambda>n. True" s rs i, OF step body assms none]
  show ?thesis by blast
qed

lemma finish_app:
  assumes "node ev" and "vm_runInContext ev src (sandbox h) = (r, sb)" and "app_inv x sb"
  shows "registeredApp (snd (runTestsInVM ev src h)) = x"
proof (cases r)
  case (Some e)
  from assms(3) have "registeredApp sb = x" by (simp add: app_inv_def)
  with assms(1,2) Some show ?thesis
    by (cases "message_of e") (simp_all add: runTestsInVM_def)
next
  case None
  obtain q sb' where rl: "run_loop ev VM 0 [] sb = (q, sb')" by (cases "run_loop ev VM 0 [] sb")
  from run_loop_app_inv[OF assms(3), of ev VM 0 "[]"] rl have "registeredApp sb' = x"
    by (simp add: app_inv_def)
  with assms(1,2) None rl show ?thesis
    by (cases q) (simp_all add: runTestsInVM_def)
qed

lemma vm_app_inv:
  assumes "app_free_list (statements src)"
  shows "app_inv (registeredApp g) (snd (vm_runInContext ev src (sandbox g)))"
proof -
  have start: "app_inv (registeredApp g) (sandbox g)" by (simp add: app_inv_def sandbox_def)
  show ?thesis
  proof (cases src)
    case (Unparsable m)
    then show ?thesis using start by simp
  next
    case (Script p)
    then show ?thesis using exec_app_inv(1)[of p "registeredApp g" "sandbox g" ev VM] start assms by simp
  next
    case (Overrun p)
    obtain r s1 where ex: "exec ev VM p (sandbox g) = (r, s1)" by (cases "exec ev VM p (sandbox g)")
    have "app_inv (registeredApp g) (snd (exec ev VM p (sandbox g)))"
      using exec_app_inv(1)[of p "registeredApp g" "sandbox g" ev VM] start assms Overrun by simp
    then show ?thesis using Overrun ex by (cases r) simp_all
  qed
qed

lemma runTestsInVM_frame:
  assumes "app_free_list (statements src)"
  shows "registeredApp (snd (runTestsInVM ev src g)) = registeredApp g"
proof (cases "node ev")
  case False
  then show ?thesis by (simp add: runTestsInVM_def)
next
  case True
  obtain r sb where vm: "vm_runInContext ev src (sandbox g) = (r, sb)"
    by (cases "vm_runInContext ev src (sandbox g)")
  from vm_app_inv[OF assms, of g ev] vm have "app_inv (registeredApp g) sb" by simp
  from finish_app[OF True vm this] show ?thesis .
qed

lemma runTestsInVM_registers:
  assumes "node ev" and "app_free_list pre" and "fst (exec ev VM pre (sandbox h)) = None"
      and "app_free_list p"
  shows "registeredApp (snd (runTestsInVM ev (Script (pre @ RegisterApp a # p)) h)) = Some a"
proof -
  obtain s1 where e1: "exec ev VM pre (sandbox h) = (None, s1)"
    using assms(3) by (cases "exec ev VM pre (sandbox h)") simp
  have "app_inv (registeredApp h) (sandbox h)" by (simp add: app_inv_def sandbox_def)
  from exec_app_inv(1)[OF assms(2) this, of ev VM] e1 have "app_inv (registeredApp h) s1" by simp
  then have i2: "app_inv (Some a) (registerApp a s1)" by (simp add: app_inv_def registerApp_def)
  obtain r s3 where e3: "exec ev VM p (registerApp a s1) = (r, s3)"
    by (cases "exec ev VM p (registerApp a s1)")
  from exec_app_inv(1)[OF assms(4) i2, of ev VM] e3 have i3: "app_inv (Some a) s3" by simp
  have "vm_runInContext ev (Script (pre @ RegisterApp a # p)) (sandbox h) = (r, s3)"
    using e1 e3 by (simp add: exec_append)
  from finish_app[OF assms(1) this i3] show ?thesis .
qed

text \<open>
  C9. \<open>registerApp\<close> inside the VM is the host's function and writes the host's
  \<open>registeredApp\<close>; \<open>runTestsInVM\<close> never resets it. In Node, after a script that
  calls \<open>registerApp(a)\<close> at its top level (and has no other call of \<open>registerApp\<close> or
  \<open>cleanup\<close>), the host's registered App is \<open>a\<close>; it is still \<open>a\<close> after any later
  invocation whose source does not call the two functions; and the host's \<open>render()\<close>
  shows \<open>a\<close> where a DOM exists. The test registry of the later invocation starts empty
  all the same.
\<close>

theorem registered_app_outlives_sandbox:
  assumes "node ev"
      and "app_free_list pre" and "fst (exec ev VM pre (sandbox h)) = None"
      and "app_free_list p"
      and "app_free_list (statements B)"
  shows "registeredApp (snd (runTestsInVM ev (Script (pre @ RegisterApp a # p)) h)) = Some a
       \<and> registeredApp (snd (runTestsInVM ev B
            (snd (runTestsInVM ev (Script (pre @ RegisterApp a # p)) h)))) = Some a
       \<and> (dom ev \<longrightarrow>
            render ev (snd (runTestsInVM ev (Script (pre @ RegisterApp a # p)) h)) = Inr a
            \<and> render ev (snd (runTestsInVM ev B
                 (snd (runTestsInVM ev (Script (pre @ RegisterApp a # p)) h)))) = Inr a)
       \<and> tests (sandbox (snd (runTestsInVM ev (Script (pre @ RegisterApp a # p)) h))) = []"
proof -
  let ?h1 = "snd (runTestsInVM ev (Script (pre @ RegisterApp a # p)) h)"
  have 1: "registeredApp ?h1 = Some a"
    by (rule runTestsInVM_registers[OF assms(1-4)])
  have 2: "registeredApp (snd (runTestsInVM ev B ?h1)) = Some a"
    using runTestsInVM_frame[OF assms(5), of ev ?h1] 1 by simp
  have 3: "dom ev \<longrightarrow> render ev ?h1 = Inr a \<and> render ev (snd (runTestsInVM ev B ?h1)) = Inr a"
    using 1 2 by (simp add: render_def)
  have 4: "tests (sandbox ?h1) = []" by (simp add: sandbox_def)
  from 1 2 3 4 show ?thesis by blast
qed

theorem registered_app_outlives_sandbox_witness:
  "registeredApp (snd (runTestsInVM plain_env (Script ([] @ RegisterApp 7 # [It ''t'' []])) init)) = Some 7
   \<and> registeredApp (snd (runTestsInVM plain_env (Script [It ''u'' [Render]])
        (snd (runTestsInVM plain_env (Script ([] @ RegisterApp 7 # [It ''t'' []])) init)))) = Some 7
   \<and> render plain_env (snd (runTestsInVM plain_env (Script ([] @ RegisterApp 7 # [It ''t'' []])) init)) = Inr 7"
proof -
  have n: "node plain_env" and d: "dom plain_env" by (simp_all add: plain_env_def)
  have a: "app_free_list []" and b: "fst (exec plain_env VM [] (sandbox init)) = None"
    and c: "app_free_list [It ''t'' []]" and e: "app_free_list (statements (Script [It ''u'' [Render]]))"
    by simp_all
  from registered_app_outlives_sandbox[OF n a b c e, of 7] d show ?thesis by blast
qed

section \<open>Validation without a solution folder\<close>

text \<open>
  C10. When \<open>solution/\<close> does not exist, \<open>validateProblemTests\<close> returns \<open>valid: true\<close>
  with the one-entry \<open>errors\<close> list and neither \<open>solutionResult\<close> nor \<open>srcResult\<close>;
  on the other return path both results are present and \<open>valid\<close> is exactly
  "\<open>errors\<close> is empty".
\<close>

theorem validate_without_solution:
  "(\<not> existsSync fs (problemPath @ [''solution'']) \<longrightarrow>
      validateProblemTests fs parse ev problemPath h =
        (Inr \<lparr>valid = True, solutionResult = None, srcResult = None,
              errors = [''No solution/ folder - skipping test validation'']\<rparr>, h))
   \<and> (existsSync fs (problemPath @ [''solution'']) \<longrightarrow>
        (\<forall>v h'. validateProblemTests fs parse ev problemPath h = (Inr v, h') \<longrightarrow>
           valid v = (errors v = []) \<and> solutionResult v \<noteq> None \<and> srcResult v \<noteq> None))"
proof -
  have 1: "\<not> existsSync fs (problemPath @ [''solution'']) \<longrightarrow>
      validateProblemTests fs parse ev problemPath h =
        (Inr \<lparr>valid = True, solutionResult = None, srcResult = None,
              errors = [''No solution/ folder - skipping test validation'']\<rparr>, h)"
    by (simp add: validateProblemTests_def)
  have 2: "existsSync fs (problemPath @ [''solution'']) \<longrightarrow>
        (\<forall>v h'. validateProblemTests fs parse ev problemPath h = (Inr v, h') \<longrightarrow>
           valid v = (errors v = []) \<and> solutionResult v \<noteq> None \<and> srcResult v \<noteq> None)"
  proof (intro impI allI)
    fix v h'
    assume ex: "existsSync fs (problemPath @ [''solution''])"
      and run: "validateProblemTests fs parse ev problemPath h = (Inr v, h')"
    obtain q1 h1 where s1: "runTestsWithCode fs parse ev problemPath ''solution'' h = (q1, h1)"
      by (cases "runTestsWithCode fs parse ev problemPath ''solution'' h")
    obtain q2 h2 where s2: "runTestsWithCode fs parse ev problemPath ''src'' h1 = (q2, h2)"
      by (cases "runTestsWithCode fs parse ev problemPath ''src'' h1")
    from run ex s1 obtain sol where q1: "q1 = Inr sol"
      by (cases q1) (simp_all add: validateProblemTests_def)
    from run ex s1 s2 q1 obtain src where q2: "q2 = Inr src"
      by (cases q2) (simp_all add: validateProblemTests_def Let_def)
    from run ex s1 s2 q1 q2 show "valid v = (errors v = []) \<and> solutionResult v \<noteq> None \<and> srcResult v \<noteq> None"
      by (auto simp: validateProblemTests_def Let_def)
  qed
  from 1 2 show ?thesis by (rule conjI)
qed

definition no_solution_fs :: node where
  "no_solution_fs =
     Dir [(''p'', Dir [(''src'', Dir [(''App.tsx'', File ''app'')]), (''test.ts'', File ''tests'')])]"

definition full_fs :: node where
  "full_fs =
     Dir [(''p'', Dir [(''solution'', Dir [(''App.tsx'', File ''fixed'')]),
                       (''src'', Dir [(''App.tsx'', File ''app'')]),
                       (''test.ts'', File ''tests'')])]"

lemma no_solution_missing: "\<not> existsSync no_solution_fs ([''p''] @ [''solution''])"
  by (simp add: existsSync_def no_solution_fs_def)

lemma full_has_solution: "existsSync full_fs ([''p''] @ [''solution''])"
  by (simp add: existsSync_def full_fs_def)

lemma full_run:
  "validateProblemTests full_fs (\<lambda>text. Script [It ''t'' []]) plain_env [''p''] init =
     (Inr \<lparr>valid = False,
           solutionResult = Some \<lparr>passed = True,
             results = [\<lparr>case_name = ''t'', case_passed = True, case_error = None\<rparr>]\<rparr>,
           srcResult = Some \<lparr>passed = True,
             results = [\<lparr>case_name = ''t'', case_passed = True, case_error = None\<rparr>]\<rparr>,
           errors = [''src/ code passed all tests (should have bugs that fail tests)'']\<rparr>,
      init)"
proof -
  have vm: "runTestsInVM plain_env (Script [It ''t'' []]) init =
      (Inr \<lparr>passed = True,
            results = [\<lparr>case_name = ''t'', case_passed = True, case_error = None\<rparr>]\<rparr>, init)"
    by (simp add: runTestsInVM_def plain_env_def sandbox_def init_def it_def run_loop.simps)
  have sol: "runTestsWithCode full_fs (\<lambda>text. Script [It ''t'' []]) plain_env [''p''] ''solution'' init =
      (Inr \<lparr>passed = True,
            results = [\<lparr>case_name = ''t'', case_passed = True, case_error = None\<rparr>]\<rparr>, init)"
    by (simp add: runTestsWithCode_def loadCodeFiles_def listFilesRecursive_def existsSync_def
        readFileSync_def full_fs_def vm)
  have src: "runTestsWithCode full_fs (\<lambda>text. Script [It ''t'' []]) plain_env [''p''] ''src'' init =
      (Inr \<lparr>passed = True,
            results = [\<lparr>case_name = ''t'', case_passed = True, case_error = None\<rparr>]\<rparr>, init)"
    by (simp add: runTestsWithCode_def loadCodeFiles_def listFilesRecursive_def existsSync_def
        readFileSync_def full_fs_def vm)
  show ?thesis
    using full_has_solution by (simp add: validateProblemTests_def sol src)
qed

theorem validate_without_solution_witness:
  "validateProblemTests no_solution_fs (\<lambda>text. Script [It ''t'' []]) plain_env [''p''] init =
     (Inr \<lparr>valid = True, solutionResult = None, srcResult = None,
           errors = [''No solution/ folder - skipping test validation'']\<rparr>, init)
   \<and> validateProblemTests full_fs (\<lambda>text. Script [It ''t'' []]) plain_env [''p''] init =
     (Inr \<lparr>valid = False,
           solutionResult = Some \<lparr>passed = True,
             results = [\<lparr>case_name = ''t'', case_passed = True, case_error = None\<rparr>]\<rparr>,
           srcResult = Some \<lparr>passed = True,
             results = [\<lparr>case_name = ''t'', case_passed = True, case_error = None\<rparr>]\<rparr>,
           errors = [''src/ code passed all tests (should have bugs that fail tests)'']\<rparr>,
      init)"
proof -
  have "validateProblemTests no_solution_fs (\<lambda>text. Script [It ''t'' []]) plain_env [''p''] init =
     (Inr \<lparr>valid = True, solutionResult = None, srcResult = None,
           errors = [''No solution/ folder - skipping test validation'']\<rparr>, init)"
    using validate_without_solution[of no_solution_fs "[''p'']" "\<lambda>text. Script [It ''t'' []]" plain_env init]
      no_solution_missing by blast
  then show ?thesis using full_run by (rule conjI)
qed

chapter \<open>Further properties\<close>

section \<open>Failures raised as \<open>Error\<close> objects\<close>

text \<open>
  \<open>error_only\<close>: every \<open>throw\<close> statement of the script, nested bodies included, throws an
  \<open>Error\<close> object. The errors of \<open>expect\<close>, \<open>render\<close> and \<open>cleanup\<close> are such objects.
\<close>

fun error_only :: "stmt \<Rightarrow> bool"
and error_only_list :: "stmt list \<Rightarrow> bool" where
  "error_only (Throw e) = (case e of ErrorObj m \<Rightarrow> True | Thrown v \<Rightarrow> False)"
| "error_only (It nm b) = error_only_list b"
| "error_only (Describe nm b) = error_only_list b"
| "error_only (Try b) = error_only_list b"
| "error_only (ExpectToBe a e) = True"
| "error_only (ExpectNotToBe a e) = True"
| "error_only (RegisterApp a) = True"
| "error_only Cleanup = True"
| "error_only Render = True"
| "error_only_list [] = True"
| "error_only_list (x # xs) = (error_only x \<and> error_only_list xs)"

definition errors_inv :: "state \<Rightarrow> bool" where
  "errors_inv s \<longleftrightarrow> (\<forall>t\<in>set (tests s). error_only_list (fn t))"

lemma errors_inv_simps [simp]:
  "errors_inv (s\<lparr>currentDescribe := d\<rparr>) = errors_inv s"
  "errors_inv (s\<lparr>registeredApp := x\<rparr>) = errors_inv s"
  by (simp_all add: errors_inv_def)

lemma exec_error_only:
  "error_only_list b \<Longrightarrow> errors_inv s \<Longrightarrow>
     errors_inv (snd (exec ev sc b s)) \<and> (\<forall>e. fst (exec ev sc b s) = Some e \<longrightarrow> (\<exists>m. e = ErrorObj m))"
  "error_only x \<Longrightarrow> errors_inv s \<Longrightarrow>
     errors_inv (snd (exec1 ev sc x s)) \<and> (\<forall>e. fst (exec1 ev sc x s) = Some e \<longrightarrow> (\<exists>m. e = ErrorObj m))"
proof (induction ev sc b s and ev sc x s rule: exec_exec1.induct)
  case (2 ev sc x xs s)
  obtain r s1 where e1: "exec1 ev sc x s = (r, s1)" by (cases "exec1 ev sc x s")
  from 2(1) 2(3,4) e1 have i1: "errors_inv s1" and t1: "\<forall>e. r = Some e \<longrightarrow> (\<exists>m. e = ErrorObj m)"
    by simp_all
  show ?case
  proof (cases r)
    case None
    from 2(2)[OF e1[symmetric, unfolded None]] 2(3) i1
    have "errors_inv (snd (exec ev sc xs s1))
        \<and> (\<forall>e. fst (exec ev sc xs s1) = Some e \<longrightarrow> (\<exists>m. e = ErrorObj m))" by simp
    then show ?thesis using e1 None by simp
  next
    case (Some e)
    then show ?thesis using e1 i1 t1 by simp
  qed
next
  case (3 ev sc nm f s)
  then show ?case by (simp add: errors_inv_def it_def)
next
  case (4 ev sc nm b s)
  have "errors_inv (s\<lparr>currentDescribe := nm\<rparr>)" using 4(3) by simp
  with 4(1)[of "s\<lparr>currentDescribe := nm\<rparr>"] 4(2)
  have ih: "errors_inv (snd (exec ev sc b (s\<lparr>currentDescribe := nm\<rparr>)))
      \<and> (\<forall>e. fst (exec ev sc b (s\<lparr>currentDescribe := nm\<rparr>)) = Some e \<longrightarrow> (\<exists>m. e = ErrorObj m))"
    by simp
  obtain r s1 where ex: "exec ev sc b (s\<lparr>currentDescribe := nm\<rparr>) = (r, s1)"
    by (cases "exec ev sc b (s\<lparr>currentDescribe := nm\<rparr>)")
  show ?case using ex ih by (cases r) (simp_all add: describe_def)
next
  case (5 ev sc e s)
  then show ?case by (cases e) simp_all
next
  case (6 ev sc a e s)
  then show ?case by (simp add: lift_def toBe_def split: json.splits)
next
  case (7 ev sc a e s)
  then show ?case by (simp add: lift_def not_toBe_def split: json.splits)
next
  case (8 ev sc a s)
  then show ?case by (simp add: registerApp_def)
next
  case (9 ev sc s)
  then show ?case by (simp add: cleanup_def reference_error_def)
next
  case (10 ev sc s)
  then show ?case
    by (cases sc) (simp_all add: lift_def render_def reference_error_def split: option.splits)
next
  case (11 ev sc b s)
  then show ?case by simp
qed simp

lemma run_loop_error_only:
  assumes "errors_inv s" and "\<forall>r\<in>set rs. \<not> case_passed r \<longrightarrow> case_error r \<noteq> None"
  shows "\<exists>rs' s'. run_loop ev sc i rs s = (Inr rs', s')
           \<and> (\<forall>r\<in>set rs'. \<not> case_passed r \<longrightarrow> case_error r \<noteq> None)"
  using assms
proof (induction ev sc i rs s rule: run_loop.induct)
  case (1 ev sc i rs s)
  show ?case
  proof (cases "i < length (tests s)")
    case False
    then show ?thesis using 1(4) by (simp add: run_loop_done)
  next
    case True
    let ?t = "tests s ! i"
    obtain r s1 where ex: "exec ev sc (fn ?t) s = (r, s1)" by (cases "exec ev sc (fn ?t) s")
    from True have "?t \<in> set (tests s)" by simp
    with 1(3) have eo: "error_only_list (fn ?t)" by (simp add: errors_inv_def)
    from exec_error_only(1)[OF eo 1(3), of ev sc] ex
    have i1: "errors_inv s1" and th: "\<forall>e. r = Some e \<longrightarrow> (\<exists>m. e = ErrorObj m)" by simp_all
    show ?thesis
    proof (cases r)
      case None
      let ?rs = "rs @ [\<lparr>case_name = name ?t, case_passed = True, case_error = None\<rparr>]"
      have n': "\<forall>r\<in>set ?rs. \<not> case_passed r \<longrightarrow> case_error r \<noteq> None" using 1(4) by simp
      have "run_loop ev sc i rs s = run_loop ev sc (Suc i) ?rs s1"
        by (rule run_loop_pass[OF True ex[unfolded None]])
      then show ?thesis using 1(1)[OF True ex[symmetric] None i1 n'] by simp
    next
      case (Some e)
      with th obtain m where e: "e = ErrorObj m" by blast
      then have msg: "message_of e = Inr (Some m)" by simp
      let ?rs = "rs @ [\<lparr>case_name = name ?t, case_passed = False, case_error = Some m\<rparr>]"
      have n': "\<forall>r\<in>set ?rs. \<not> case_passed r \<longrightarrow> case_error r \<noteq> None" using 1(4) by simp
      have "run_loop ev sc i rs s = run_loop ev sc (Suc i) ?rs s1"
        by (rule run_loop_fail[OF True ex[unfolded Some] msg])
      then show ?thesis using 1(2)[OF True ex[symmetric] Some msg i1 n'] by simp
    qed
  qed
qed

text \<open>
  When every registered body throws \<open>Error\<close> objects only, \<open>runTests()\<close> returns a
  report, and every failed entry of it carries an error string.
\<close>

theorem error_failures_carry_message:
  assumes "\<forall>t\<in>set (tests s). error_only_list (fn t)"
  shows "\<exists>rep s'. runTests ev s = (Inr rep, s')
           \<and> (\<forall>r\<in>set (results rep). \<not> case_passed r \<longrightarrow> (\<exists>m. case_error r = Some m))"
proof -
  have i: "errors_inv s" using assms by (simp add: errors_inv_def)
  have n: "\<forall>r\<in>set ([]::CaseResult list). \<not> case_passed r \<longrightarrow> case_error r \<noteq> None" by simp
  from run_loop_error_only[OF i n, of ev Host 0] obtain rs s1 where
    rl: "run_loop ev Host 0 [] s = (Inr rs, s1)"
    and ok: "\<forall>r\<in>set rs. \<not> case_passed r \<longrightarrow> case_error r \<noteq> None" by blast
  have "runTests ev s = (Inr \<lparr>passed = list_all case_passed rs, results = rs\<rparr>, s1\<lparr>tests := []\<rparr>)"
    by (simp add: runTests_def rl)
  then show ?thesis using ok by auto
qed

theorem error_failures_carry_message_witness:
  "\<exists>rep s'. runTests plain_env two_cases = (Inr rep, s')
           \<and> (\<forall>r\<in>set (results rep). \<not> case_passed r \<longrightarrow> (\<exists>m. case_error r = Some m))"
proof -
  have "\<forall>t\<in>set (tests two_cases). error_only_list (fn t)" by (simp add: two_cases_def)
  then show ?thesis by (rule error_failures_carry_message)
qed

section \<open>Groups\<close>

text \<open>
  When the body of \<open>describe\<close> returns normally, the group name is empty afterwards and
  a case registered next keeps its own name.
\<close>

theorem describe_resets_on_return:
  assumes "fst (exec ev sc b (s\<lparr>currentDescribe := nm\<rparr>)) = None"
  shows "fst (exec1 ev sc (Describe nm b) s) = None
       \<and> currentDescribe (snd (exec1 ev sc (Describe nm b) s)) = []
       \<and> name (last (tests (snd (exec ev sc [Describe nm b, It n f] s)))) = n"
proof -
  obtain s1 where ex: "exec ev sc b (s\<lparr>currentDescribe := nm\<rparr>) = (None, s1)"
    using assms by (cases "exec ev sc b (s\<lparr>currentDescribe := nm\<rparr>)") simp
  then show ?thesis by (simp add: describe_def it_def)
qed

theorem describe_resets_on_return_witness:
  "fst (exec1 plain_env Host (Describe ''g'' [It ''a'' []]) init) = None
   \<and> currentDescribe (snd (exec1 plain_env Host (Describe ''g'' [It ''a'' []]) init)) = []
   \<and> name (last (tests (snd (exec plain_env Host [Describe ''g'' [It ''a'' []], It ''t'' []] init)))) = ''t''"
proof -
  have "fst (exec plain_env Host [It ''a'' []] (init\<lparr>currentDescribe := ''g''\<rparr>)) = None" by simp
  then show ?thesis by (rule describe_resets_on_return)
qed

text \<open>
  Groups do not nest: the reset of the inner \<open>describe\<close> empties the group name, and a
  case registered after it inside the outer group has no prefix.
\<close>

theorem nested_describe_clobbers:
  "map name (tests (snd (exec plain_env Host
      [Describe ''outer'' [Describe ''inner'' [It ''a'' []], It ''b'' []]] init)))
     = [''inner > a'', ''b'']"
  by (simp add: describe_def it_def init_def)

section \<open>Cases registered while the registry is drained\<close>

text \<open>
  A case that a running body registers is appended to the live array and run in the
  same call of \<open>runTests()\<close>, after the cases registered before.
\<close>

theorem late_case_runs_in_same_drain:
  "runTests plain_env \<lparr>tests = [\<lparr>name = ''a'', fn = [It ''late'' []]\<rparr>],
                        currentDescribe = [], registeredApp = None\<rparr> =
     (Inr \<lparr>passed = True,
           results = [\<lparr>case_name = ''a'', case_passed = True, case_error = None\<rparr>,
                      \<lparr>case_name = ''late'', case_passed = True, case_error = None\<rparr>]\<rparr>,
      init)"
  by (simp add: runTests_def init_def it_def run_loop.simps)

section \<open>Configuration failures\<close>

text \<open>
  Outside Node, \<open>runTestsInVM\<close> rejects with its environment error and runs nothing.
\<close>

theorem runTestsInVM_outside_node:
  assumes "\<not> node ev"
  shows "runTestsInVM ev src h =
           (Inl (ErrorObj ''runTestsInVM can only be used in Node.js environment''), h)"
  using assms by (simp add: runTestsInVM_def)

theorem runTestsInVM_outside_node_witness:
  "runTestsInVM \<lparr>node = False, dom = True, stringify = sample_stringify\<rparr> (Script [It ''t'' []]) init =
     (Inl (ErrorObj ''runTestsInVM can only be used in Node.js environment''), init)"
proof -
  have "\<not> node \<lparr>node = False, dom = True, stringify = sample_stringify\<rparr>" by simp
  then show ?thesis by (rule runTestsInVM_outside_node)
qed

text \<open>
  \<open>render()\<close> with no registered App fails with the explicit error, in particular
  after a \<open>cleanup()\<close> that had a DOM to work on.
\<close>

theorem render_needs_registered_app:
  "render ev (s\<lparr>registeredApp := None\<rparr>) =
     Inl (ErrorObj ''No App registered. Call registerApp(App) first.'')
   \<and> render ev (snd (cleanup (ev\<lparr>dom := True\<rparr>) s)) =
     Inl (ErrorObj ''No App registered. Call registerApp(App) first.'')"
  by (simp add: render_def cleanup_def)

section \<open>Grading\<close>

text \<open>
  When \<open>solution/\<close> exists and both runs return a report, the validation is valid
  exactly when the solution run passed and the \<open>src\<close> run did not; a passing \<open>src\<close> run and a
  failing solution run each leave their line in \<open>errors\<close>.
\<close>

theorem grading_policy:
  assumes "existsSync fs (problemPath @ [''solution''])"
      and "runTestsWithCode fs parse ev problemPath ''solution'' h = (Inr sol, h1)"
      and "runTestsWithCode fs parse ev problemPath ''src'' h1 = (Inr src, h2)"
  shows "\<exists>v. validateProblemTests fs parse ev problemPath h = (Inr v, h2)
           \<and> valid v = (passed sol \<and> \<not> passed src)
           \<and> (passed src \<longrightarrow>
                ''src/ code passed all tests (should have bugs that fail tests)'' \<in> set (errors v))
           \<and> (\<not> passed sol \<longrightarrow>
                ''solution/ code failed tests (should pass all tests)'' \<in> set (errors v))
           \<and> solutionResult v = Some sol \<and> srcResult v = Some src"
  using assms by (simp add: validateProblemTests_def Let_def)

theorem grading_policy_witness:
  "\<exists>v. validateProblemTests full_fs (\<lambda>text. Script [It ''t'' []]) plain_env [''p''] init = (Inr v, init)
           \<and> valid v = (True \<and> \<not> True)
           \<and> ''src/ code passed all tests (should have bugs that fail tests)'' \<in> set (errors v)"
proof -
  let ?r = "\<lparr>passed = True,
            results = [\<lparr>case_name = ''t'', case_passed = True, case_error = None\<rparr>]\<rparr>"
  have vm: "runTestsInVM plain_env (Script [It ''t'' []]) init = (Inr ?r, init)"
    by (simp add: runTestsInVM_def plain_env_def sandbox_def init_def it_def run_loop.simps)
  have sol: "runTestsWithCode full_fs (\<lambda>text. Script [It ''t'' []]) plain_env [''p''] ''solution'' init =
      (Inr ?r, init)"
    by (simp add: runTestsWithCode_def loadCodeFiles_def listFilesRecursive_def existsSync_def
        readFileSync_def full_fs_def vm)
  have src: "runTestsWithCode full_fs (\<lambda>text. Script [It ''t'' []]) plain_env [''p''] ''src'' init =
      (Inr ?r, init)"
    by (simp add: runTestsWithCode_def loadCodeFiles_def listFilesRecursive_def existsSync_def
        readFileSync_def full_fs_def vm)
  from grading_policy[OF full_has_solution sol src] show ?thesis by auto
qed

text \<open>
  Without \<open>test.ts\<close> in the problem folder, \<open>runTestsWithCode\<close> returns the one-entry
  report \<open>Load test file\<close> and runs nothing.
\<close>

theorem missing_test_file:
  assumes "loadCodeFiles fs problemPath folder = Inr codeFiles"
      and "\<not> existsSync fs (problemPath @ [''test.ts''])"
  shows "runTestsWithCode fs parse ev problemPath folder h =
           (Inr \<lparr>passed = False,
                 results = [\<lparr>case_name = ''Load test file'', case_passed = False,
                             case_error = Some ''test.ts not found''\<rparr>]\<rparr>, h)"
  using assms by (simp add: runTestsWithCode_def failed_report_def)

theorem missing_test_file_witness:
  "runTestsWithCode (Dir [(''p'', Dir [(''src'', Dir [(''App.tsx'', File ''app'')])])])
       (\<lambda>text. Script []) plain_env [''p''] ''src'' init =
     (Inr \<lparr>passed = False,
           results = [\<lparr>case_name = ''Load test file'', case_passed = False,
                       case_error = Some ''test.ts not found''\<rparr>]\<rparr>, init)"
proof -
  let ?fs = "Dir [(''p'', Dir [(''src'', Dir [(''App.tsx'', File ''app'')])])]"
  have a: "loadCodeFiles ?fs [''p''] ''src'' = Inr [(''App.tsx'', ''app'')]"
    by (simp add: loadCodeFiles_def listFilesRecursive_def existsSync_def readFileSync_def relative_def)
  have b: "\<not> existsSync ?fs ([''p''] @ [''test.ts''])" by (simp add: existsSync_def)
  from missing_test_file[OF a b] show ?thesis .
qed

lemma join_with_Cons:
  "ys \<noteq> [] \<Longrightarrow> join_with sep (x # ys) = x @ sep @ join_with sep ys"
  by (cases ys) simp_all

definition bundle_tail :: "string \<Rightarrow> string list" where
  "bundle_tail testCode =
     [''// Auto-register App'', ''registerApp(App);'', [], ''// Test file'', testCode]"

definition file_lines :: "(string \<times> string) list \<Rightarrow> string list" where
  "file_lines codeFiles =
     concat (map (\<lambda>(filepath, content). [''// File: '' @ filepath, content, []]) codeFiles)"

lemma bundle_lines:
  "bundleCodeWithTests codeFiles testCode =
     join_with newline (file_lines codeFiles @ bundle_tail testCode)"
  by (simp add: bundleCodeWithTests_def file_lines_def bundle_tail_def)

text \<open>
  The bundled text: per code file a header line, the content and an empty line; then the
  auto-registration of \<open>App\<close>, an empty line, the test header and the test code, all joined
  by newlines.
\<close>

theorem bundle_layout:
  "bundleCodeWithTests [] testCode =
     ''// Auto-register App'' @ newline @ ''registerApp(App);'' @ newline @ newline
     @ ''// Test file'' @ newline @ testCode
   \<and> bundleCodeWithTests ((filepath, content) # files) testCode =
     ''// File: '' @ filepath @ newline @ content @ newline @ newline
     @ bundleCodeWithTests files testCode"
proof -
  have 1: "bundleCodeWithTests [] testCode =
     ''// Auto-register App'' @ newline @ ''registerApp(App);'' @ newline @ newline
     @ ''// Test file'' @ newline @ testCode"
    by (simp add: bundle_lines file_lines_def bundle_tail_def)
  let ?rest = "file_lines files @ bundle_tail testCode"
  have ne: "?rest \<noteq> []" by (simp add: bundle_tail_def)
  have "bundleCodeWithTests ((filepath, content) # files) testCode =
      join_with newline ((''// File: '' @ filepath) # content # [] # ?rest)"
    by (simp add: bundle_lines file_lines_def)
  also have "\<dots> = (''// File: '' @ filepath) @ newline @ content @ newline @ [] @ newline
      @ join_with newline ?rest"
    using ne by (simp add: join_with_Cons)
  finally have 2: "bundleCodeWithTests ((filepath, content) # files) testCode =
     ''// File: '' @ filepath @ newline @ content @ newline @ newline
     @ bundleCodeWithTests files testCode"
    by (simp add: bundle_lines)
  from 1 2 show ?thesis by (rule conjI)
qed

end
